theory Spec2Isabelle
  imports Main "HOL-Library.Word" "HOL-Library.Monad_Syntax"
begin

section \<open>The triangle-counting kernel of cuFindTriangles.cu\<close>

text \<open>
  The kernel is launched on a one-dimensional grid of \<open>gridDim\<close> blocks of \<open>blockDim\<close>
  threads. Thread \<open>threadIdx\<close> of a block is lane \<open>threadIdx mod warpSize\<close> of warp
  \<open>threadIdx div warpSize\<close>. The two constants are the \<^verbatim>\<open>#define\<close>s of the source.
\<close>

definition warpSize :: nat where
  "warpSize = 32"

definition numberOfWarps :: nat where
  "numberOfWarps = 8"

subsection \<open>The CSR structure and its reads\<close>

text \<open>
  \<^verbatim>\<open>csrFormat\<close> as the kernel uses it: \<^verbatim>\<open>csrVal\<close> is never read by the kernel and is
  left out. The entries are C \<^verbatim>\<open>int\<close>s, so they may be negative in a malformed structure.
\<close>

record csrFormat =
  nnz :: int
  csrRowPtr :: "int list"
  csrColInd :: "int list"

text \<open>
  A read \<^verbatim>\<open>a[i]\<close> of a device array. The kernel does no bounds check; a read outside the
  array has no defined value, and the model gives no result (\<open>None\<close>) for a thread, and
  so for a launch, that performs one.
\<close>

definition rd :: "int list \<Rightarrow> int \<Rightarrow> int option" where
  "rd a i = (if 0 \<le> i \<and> i < int (length a) then Some (a ! nat i) else None)"

subsection \<open>The loops of one thread\<close>

text \<open>
  Row numbers and positions are C \<^verbatim>\<open>int\<close>s of 32 bits. \<open>wrap32 x\<close> is the value of the
  \<^verbatim>\<open>int\<close> that holds the low 32 bits of \<open>x\<close> in two's complement: what the device
  stores for a sum or product whose mathematical value is \<open>x\<close>, whether it was computed
  as \<^verbatim>\<open>unsigned\<close> and converted or as \<^verbatim>\<open>int\<close>.
\<close>

definition wrap32 :: "int \<Rightarrow> int" where
  "wrap32 x = (x + 2 ^ 31) mod 2 ^ 32 - 2 ^ 31"

text \<open>
  The only effect of a thread inside the row loops is the call \<^verbatim>\<open>warpReduceSum(sum)\<close> at a
  match. The loop functions return how many times the thread reaches that call.
  The loop bounds \<^verbatim>\<open>A.csrRowPtr[row+1]\<close> and \<^verbatim>\<open>A.csrRowPtr[col+1]\<close> are read again at
  every test in the source; the arrays are never written, so the model reads each once,
  where the source reads it first, and passes the value on (\<open>e_row\<close>, \<open>e_col\<close>).
\<close>

text \<open>
  The innermost loop, over \<open>l\<close>: it returns the value of \<^verbatim>\<open>beginPtr_csr_row\<close> after the loop
  and the number of matches. A match does not leave the loop; the first entry larger than
  \<open>csc_row\<close> does, and is remembered.
\<close>

function l_loop :: "csrFormat \<Rightarrow> int \<Rightarrow> int \<Rightarrow> int \<Rightarrow> int \<Rightarrow> (int \<times> nat) option" where
  "l_loop A e_row csc_row beginPtr_csr_row l =
     (if l < e_row then
        do {
          csr_col \<leftarrow> rd (csrColInd A) l;
          if csc_row = csr_col then
            do {
              (b, n) \<leftarrow> l_loop A e_row csc_row beginPtr_csr_row (l + 1);
              Some (b, Suc n)
            }
          else if csr_col > csc_row then Some (l, 0)
          else l_loop A e_row csc_row beginPtr_csr_row (l + 1)
        }
      else Some (beginPtr_csr_row, 0))"
  by pat_completeness auto
termination
  by (relation "measure (\<lambda>(A, e_row, csc_row, b, l). nat (e_row - l))") auto

text \<open>The loop over \<open>k\<close>, the entries of row \<open>col\<close>; \<^verbatim>\<open>beginPtr_csr_row\<close> is carried from
  one entry to the next and never reset.\<close>

function k_loop :: "csrFormat \<Rightarrow> int \<Rightarrow> int \<Rightarrow> int \<Rightarrow> int \<Rightarrow> nat option" where
  "k_loop A e_row e_col beginPtr_csr_row k =
     (if k < e_col then
        do {
          csc_row \<leftarrow> rd (csrColInd A) k;
          (b, n) \<leftarrow> l_loop A e_row csc_row beginPtr_csr_row beginPtr_csr_row;
          m \<leftarrow> k_loop A e_row e_col b (k + 1);
          Some (n + m)
        }
      else Some 0)"
  by pat_completeness auto
termination
  by (relation "measure (\<lambda>(A, e_row, e_col, b, k). nat (e_col - k))") auto

text \<open>The body of \<^verbatim>\<open>if ( col>row )\<close>: the matches of one processed edge.\<close>

definition edge :: "csrFormat \<Rightarrow> int \<Rightarrow> int \<Rightarrow> int \<Rightarrow> nat option" where
  "edge A e_row row col =
     do {
       beginPtr_csr_row \<leftarrow> rd (csrRowPtr A) row;
       beginPtr_csc_col \<leftarrow> rd (csrRowPtr A) col;
       e_col \<leftarrow> rd (csrRowPtr A) (col + 1);
       k_loop A e_row e_col beginPtr_csr_row beginPtr_csc_col
     }"

text \<open>
  The loop over \<open>j\<close>: a lane visits every \<open>warpSize\<close>-th entry of the row. The step
  \<^verbatim>\<open>j += warpSize\<close> is a 32 bit addition. The loop always ends: \<open>j\<close> grows until it
  reaches the bound, or wraps to a negative position, whose read has no value.
\<close>

function j_loop :: "csrFormat \<Rightarrow> int \<Rightarrow> int \<Rightarrow> int \<Rightarrow> nat option" where
  "j_loop A row e_row j =
     (if j < e_row then
        do {
          col \<leftarrow> rd (csrColInd A) j;
          n \<leftarrow> (if col > row then edge A e_row row col else Some 0);
          m \<leftarrow> j_loop A row e_row (wrap32 (j + int warpSize));
          Some (n + m)
        }
      else Some 0)"
  by pat_completeness auto
termination
proof (relation "measure (\<lambda>(A, row, e_row, j).
         if j < 0 then 0 else if 2 ^ 31 \<le> j then 2 ^ 31 + 2 else nat (min e_row (2 ^ 31) - j) + 1)")
  show "wf (measure (\<lambda>(A, row, e_row, j).
         if j < 0 then 0 else if 2 ^ 31 \<le> j then 2 ^ 31 + 2 else nat (min e_row (2 ^ 31) - j) + 1))"
    by (rule wf_measure)
next
  fix A :: csrFormat and row e_row j col :: int
  assume lt: "j < e_row" and r: "rd (csrColInd A) j = Some col"
  from r have j0: "0 \<le> j"
    by (simp add: rd_def split: if_splits)
  define j' where "j' = wrap32 (j + int warpSize)"
  have range: "- (2 ^ 31) \<le> j'" "j' < 2 ^ 31"
    unfolding j'_def wrap32_def by simp_all
  have wrapped: "j' < 0" if "j < 2 ^ 31" "2 ^ 31 \<le> j + 32"
  proof -
    have "(j + 32 + 2 ^ 31) mod 2 ^ 32 = j + 32 + 2 ^ 31 - 2 ^ 32"
      using that by (intro int_mod_pos_eq [where q = 1]) simp_all
    then show ?thesis
      using that by (simp add: j'_def wrap32_def warpSize_def)
  qed
  have same: "j' = j + 32" if "j + 32 < 2 ^ 31"
  proof -
    have "(j + 32 + 2 ^ 31) mod 2 ^ 32 = j + 32 + 2 ^ 31"
      using that j0 by (intro mod_pos_pos_trivial) simp_all
    then show ?thesis
      by (simp add: j'_def wrap32_def warpSize_def)
  qed
  consider "2 ^ 31 \<le> j" | "j < 2 ^ 31" "2 ^ 31 \<le> j + 32" | "j + 32 < 2 ^ 31"
    by linarith
  then have "(if j' < 0 then 0 else if 2 ^ 31 \<le> j' then 2 ^ 31 + 2 else nat (min e_row (2 ^ 31) - j') + 1)
      < (if j < 0 then 0 else if 2 ^ 31 \<le> j then 2 ^ 31 + 2 else nat (min e_row (2 ^ 31) - j) + (1::nat))"
  proof cases
    case 1
    have "nat (min e_row (2 ^ 31) - j') \<le> 2 ^ 31" if "0 \<le> j'"
      using that by simp
    then show ?thesis using 1 range j0 by auto
  next
    case 2
    then show ?thesis using wrapped j0 by simp
  next
    case 3
    have "nat (min e_row (2 ^ 31) - (j + 32)) < nat (min e_row (2 ^ 31) - j)"
      using 3 lt by simp
    then show ?thesis using 3 same j0 by simp
  qed
  then show "((A, row, e_row, wrap32 (j + int warpSize)), A, row, e_row, j)
      \<in> measure (\<lambda>(A, row, e_row, j).
         if j < 0 then 0 else if 2 ^ 31 \<le> j then 2 ^ 31 + 2 else nat (min e_row (2 ^ 31) - j) + 1)"
    unfolding in_measure prod.case j'_def .
qed

text \<open>
  The body of the row loop for one lane. The start \<^verbatim>\<open>A.csrRowPtr[row] + lane\<close> is a 32 bit
  sum. In \<^verbatim>\<open>A.csrRowPtr[row+1]\<close> the row is below \<open>N\<close>, itself an \<^verbatim>\<open>int\<close>, so \<open>row + 1\<close>
  does not wrap.
\<close>

definition row_body :: "csrFormat \<Rightarrow> nat \<Rightarrow> int \<Rightarrow> nat option" where
  "row_body A lane row =
     do {
       s \<leftarrow> rd (csrRowPtr A) row;
       e_row \<leftarrow> rd (csrRowPtr A) (row + 1);
       j_loop A row e_row (wrap32 (s + int lane))
     }"

text \<open>
  The loop over the rows of a warp. The step \<^verbatim>\<open>row += stride\<close> is a 32 bit addition.
  With a stride of 0 the loop does not advance and never returns; with a stride that
  wrapped to a negative number, or a sum that wraps, it reaches a negative row, whose
  read has no value. A loop that does not return has no result (\<open>None\<close>).
\<close>

partial_function (option) row_loop :: "csrFormat \<Rightarrow> int \<Rightarrow> int \<Rightarrow> nat \<Rightarrow> int \<Rightarrow> nat option" where
  "row_loop A N stride lane row =
     (if row < N then
        do {
          n \<leftarrow> row_body A lane row;
          m \<leftarrow> row_loop A N stride lane (wrap32 (row + stride));
          Some (n + m)
        }
      else Some 0)"

declare row_loop.simps [code]

text \<open>
  The matches of thread \<open>threadIdx\<close> of block \<open>blockIdx\<close>, lines 117 to 168. The sum
  \<^verbatim>\<open>wid + blockIdx.x*numberOfWarps\<close> and the product \<^verbatim>\<open>numberOfWarps * gridDim.x\<close> are
  computed in 32 bits and stored in an \<^verbatim>\<open>int\<close>.
\<close>

definition thread_matches :: "csrFormat \<Rightarrow> int \<Rightarrow> nat \<Rightarrow> nat \<Rightarrow> nat \<Rightarrow> nat option" where
  "thread_matches A N gridDim blockIdx threadIdx =
     (let lane = threadIdx mod warpSize;
          wid = threadIdx div warpSize;
          index = wrap32 (int wid + int blockIdx * int numberOfWarps);
          stride = wrap32 (int numberOfWarps * int gridDim)
      in row_loop A N stride lane index)"

subsection \<open>Shared memory, the warp-level and the block-level reduction\<close>

text \<open>
  The shared memory of a block is a window of 32 bit words in which the array \<^verbatim>\<open>sum\<close>
  starts at word 0 and has \<open>numberOfWarps\<close> declared slots. Neither the kernel nor the
  device checks an index into \<^verbatim>\<open>sum\<close>: \<^verbatim>\<open>sum[i]\<close> is word \<open>i\<close> of the window, also for
  \<open>i\<close> beyond the declared slots. The model is that window. Its content at block entry is
  not initialised; it is a parameter of the launch.
  The accumulator and the slots are C \<^verbatim>\<open>int\<close>s; they are 32 bit words here, so every
  addition wraps as the device's does.
\<close>

type_synonym shared = "nat \<Rightarrow> 32 word"

definition cuZeroVariable :: "32 word \<Rightarrow> 32 word" where
  "cuZeroVariable nT = 0"

text \<open>
  \<^verbatim>\<open>warpReduceSum\<close>, run by one coalesced group \<open>g\<close>: the list of the \<^verbatim>\<open>threadIdx.x\<close> of the
  threads that are at the call together, in rank order (all of one warp). The thread of
  rank 0 alone adds the size of the group to the slot of its warp, atomically.
\<close>

definition warpReduceSum :: "nat list \<Rightarrow> shared \<Rightarrow> shared" where
  "warpReduceSum g sum_s =
     (case g of
        [] \<Rightarrow> sum_s
      | threadIdx # _ \<Rightarrow>
          (let wid = threadIdx div warpSize;
               val = length g
           in sum_s(wid := sum_s wid + of_nat val)))"

text \<open>
  \<^verbatim>\<open>blockReduceSum\<close>, run by the threads of warp 0 as one group of \<open>gsize\<close> threads whose
  rank is their lane. One round is the body of the \<^verbatim>\<open>for\<close> loop for every lane, then the
  \<^verbatim>\<open>g.sync()\<close>; the rounds halve \<open>i\<close> until it is 0.
\<close>

definition reduce_round :: "nat \<Rightarrow> nat \<Rightarrow> shared \<Rightarrow> shared" where
  "reduce_round gsize i temp =
     fold (\<lambda>lane t. if lane < i then t(lane := t lane + t (lane + i)) else t) [0..<gsize] temp"

fun reduce_rounds :: "nat \<Rightarrow> nat \<Rightarrow> shared \<Rightarrow> shared" where
  "reduce_rounds gsize i temp =
     (if 0 < i then reduce_rounds gsize (i div 2) (reduce_round gsize i temp) else temp)"

declare reduce_rounds.simps [simp del]

definition blockReduceSum :: "nat \<Rightarrow> shared \<Rightarrow> shared" where
  "blockReduceSum gsize temp = reduce_rounds gsize (gsize div 2) temp"

subsection \<open>One block, and the launch\<close>

text \<open>Line 124, for every thread of the block: the threads of warp 0 clear slot \<open>lane\<close>.\<close>

definition zero_sum :: "nat \<Rightarrow> shared \<Rightarrow> shared" where
  "zero_sum blockDim sum_s =
     fold (\<lambda>threadIdx s. if threadIdx div warpSize = 0 then s(threadIdx mod warpSize := 0) else s)
       [0..<blockDim] sum_s"

text \<open>
  The row loops of the threads of a block, between the two barriers. The threads only
  add to shared memory there, atomically, and read nothing of it, so the slots after the
  second barrier do not depend on how the threads interleave or coalesce. The model runs
  the threads one after the other, each as a group of its own at every match.
\<close>

fun rows_phase :: "csrFormat \<Rightarrow> int \<Rightarrow> nat \<Rightarrow> nat \<Rightarrow> nat list \<Rightarrow> shared \<Rightarrow> shared option" where
  "rows_phase A N gridDim blockIdx [] sum_s = Some sum_s"
| "rows_phase A N gridDim blockIdx (threadIdx # ts) sum_s =
     do {
       n \<leftarrow> thread_matches A N gridDim blockIdx threadIdx;
       rows_phase A N gridDim blockIdx ts ((warpReduceSum [threadIdx] ^^ n) sum_s)
     }"

text \<open>
  A block: clear, barrier, row loops, barrier, the reduction by the threads of warp 0
  (\<open>min blockDim warpSize\<close> of them), barrier, and thread 0 adds \<^verbatim>\<open>sum[0]\<close> to \<^verbatim>\<open>*nT\<close>.
\<close>

definition block :: "csrFormat \<Rightarrow> int \<Rightarrow> nat \<Rightarrow> nat \<Rightarrow> nat \<Rightarrow> shared \<Rightarrow> 32 word \<Rightarrow> 32 word option" where
  "block A N gridDim blockDim blockIdx sum_s nT =
     do {
       s \<leftarrow> rows_phase A N gridDim blockIdx [0..<blockDim] (zero_sum blockDim sum_s);
       let s' = blockReduceSum (min blockDim warpSize) s;
       Some (if 0 < blockDim then nT + s' 0 else nT)
     }"

text \<open>
  The launch: every block of the grid, each on its own shared memory \<open>shm blockIdx\<close>.
  The blocks meet only in the atomic additions to \<^verbatim>\<open>*nT\<close>, so their order is immaterial;
  the model runs them in the order of their index.
\<close>

fun blocks :: "csrFormat \<Rightarrow> int \<Rightarrow> nat \<Rightarrow> nat \<Rightarrow> (nat \<Rightarrow> shared) \<Rightarrow> nat list \<Rightarrow> 32 word \<Rightarrow> 32 word option" where
  "blocks A N gridDim blockDim shm [] nT = Some nT"
| "blocks A N gridDim blockDim shm (blockIdx # bs) nT =
     do {
       nT' \<leftarrow> block A N gridDim blockDim blockIdx (shm blockIdx) nT;
       blocks A N gridDim blockDim shm bs nT'
     }"

definition cuFindTriangles :: "csrFormat \<Rightarrow> int \<Rightarrow> nat \<Rightarrow> nat \<Rightarrow> (nat \<Rightarrow> shared) \<Rightarrow> 32 word \<Rightarrow> 32 word option" where
  "cuFindTriangles A N gridDim blockDim shm nT = blocks A N gridDim blockDim shm [0..<gridDim] nT"

section \<open>The graph a CSR structure stands for\<close>

text \<open>
  The structural invariant of the data model: \<open>N + 1\<close> row offsets, not decreasing, from 0
  to \<open>nnz\<close>, the length of the column index array, whose entries are rows, in \<open>[0, N)\<close>.
\<close>

definition wf_csr :: "csrFormat \<Rightarrow> int \<Rightarrow> bool" where
  "wf_csr A N \<longleftrightarrow>
     0 \<le> N \<and> int (length (csrRowPtr A)) = N + 1 \<and> int (length (csrColInd A)) = nnz A \<and>
     sorted (csrRowPtr A) \<and> hd (csrRowPtr A) = 0 \<and> last (csrRowPtr A) = nnz A \<and>
     (\<forall>c\<in>set (csrColInd A). 0 \<le> c \<and> c < N)"

text \<open>
  The launches in which no index computation of a thread wraps: every row a warp reaches
  plus the stride, the largest first row of a warp, and every position of a lane plus
  \<open>warpSize\<close> are below \<open>2 ^ 31\<close>.
\<close>

definition no_wrap :: "csrFormat \<Rightarrow> int \<Rightarrow> nat \<Rightarrow> nat \<Rightarrow> bool" where
  "no_wrap A N gridDim blockDim \<longleftrightarrow>
     N + int numberOfWarps * int gridDim < 2 ^ 31 \<and>
     int ((blockDim - 1) div warpSize) + int numberOfWarps * (int gridDim - 1) < 2 ^ 31 \<and>
     nnz A + int warpSize < 2 ^ 31"

text \<open>The accessor \<open>neighbors(row)\<close>: the slice of the column indices of a row.\<close>

definition neighbors :: "csrFormat \<Rightarrow> int \<Rightarrow> int list" where
  "neighbors A r =
     (let s = csrRowPtr A ! nat r; e = csrRowPtr A ! nat (r + 1)
      in take (nat (e - s)) (drop (nat s) (csrColInd A)))"

definition rows_sorted :: "csrFormat \<Rightarrow> int \<Rightarrow> bool" where
  "rows_sorted A N \<longleftrightarrow> (\<forall>r\<in>{0..<N}. sorted (neighbors A r))"

definition rows_strict :: "csrFormat \<Rightarrow> int \<Rightarrow> bool" where
  "rows_strict A N \<longleftrightarrow> (\<forall>r\<in>{0..<N}. sorted_wrt (<) (neighbors A r))"

definition symmetric :: "csrFormat \<Rightarrow> int \<Rightarrow> bool" where
  "symmetric A N \<longleftrightarrow> (\<forall>r\<in>{0..<N}. \<forall>c\<in>set (neighbors A r). r \<in> set (neighbors A c))"

definition loop_free :: "csrFormat \<Rightarrow> int \<Rightarrow> bool" where
  "loop_free A N \<longleftrightarrow> (\<forall>r\<in>{0..<N}. r \<notin> set (neighbors A r))"

text \<open>
  The naive intersection of the specification: for every entry of the list of \<open>col\<close>, the
  full slice of \<open>row\<close> is scanned again from its start, and every equal entry counts.
\<close>

definition naive_intersection :: "csrFormat \<Rightarrow> int \<Rightarrow> int \<Rightarrow> nat" where
  "naive_intersection A row col =
     (\<Sum>csc_row\<leftarrow>neighbors A col. length (filter (\<lambda>csr_col. csc_row = csr_col) (neighbors A row)))"

text \<open>The index pairs \<open>(k, l)\<close>, \<open>k\<close> in the slice of \<open>col\<close> and \<open>l\<close> in the slice of \<open>row\<close>, with
  equal column values.\<close>

definition match_pairs :: "csrFormat \<Rightarrow> int \<Rightarrow> int \<Rightarrow> (nat \<times> nat) list" where
  "match_pairs A row col =
     [(k, l). k \<leftarrow> [nat (csrRowPtr A ! nat col)..<nat (csrRowPtr A ! nat (col + 1))],
              l \<leftarrow> [nat (csrRowPtr A ! nat row)..<nat (csrRowPtr A ! nat (row + 1))],
              csrColInd A ! k = csrColInd A ! l]"

text \<open>The number of entries of the slice \<open>[s, e)\<close> of the column indices that equal \<open>v\<close>.\<close>

definition cnt :: "csrFormat \<Rightarrow> int \<Rightarrow> int \<Rightarrow> int \<Rightarrow> nat" where
  "cnt A s e v = (\<Sum>i\<in>{s..<e}. if csrColInd A ! nat i = v then 1 else 0)"

subsection \<open>Concrete structures\<close>

text \<open>The complete graph on three nodes, every edge stored in both directions.\<close>

definition K3 :: csrFormat where
  "K3 = \<lparr>nnz = 6, csrRowPtr = [0, 2, 4, 6], csrColInd = [1, 2, 0, 2, 0, 1]\<rparr>"

text \<open>A symmetric structure with sorted rows in which row 1 lists column 1 twice.\<close>

definition dupG :: csrFormat where
  "dupG = \<lparr>nnz = 6, csrRowPtr = [0, 2, 5, 6], csrColInd = [1, 2, 0, 1, 1, 0]\<rparr>"

text \<open>A structure with sorted rows in which row 0 lists column 2 twice; the other rows are
  strictly ascending.\<close>

definition dupR :: csrFormat where
  "dupR = \<lparr>nnz = 5, csrRowPtr = [0, 3, 5, 5], csrColInd = [1, 2, 2, 0, 2]\<rparr>"


text \<open>The complete graph on four nodes.\<close>

definition K4 :: csrFormat where
  "K4 = \<lparr>nnz = 12, csrRowPtr = [0, 3, 6, 9, 12],
          csrColInd = [1, 2, 3, 0, 2, 3, 0, 1, 3, 0, 1, 2]\<rparr>"


text \<open>A content of the shared memories at block entry, left there by earlier work.\<close>

definition stale :: "nat \<Rightarrow> shared" where
  "stale blockIdx i = 7"

text \<open>A shared memory that holds a 1 in word 31 and 0 elsewhere.\<close>

definition probe :: shared where
  "probe i = (if i = 31 then 1 else 0)"

subsection \<open>Triangles\<close>

text \<open>
  The triangles of the graph: the triples \<open>a < b < c\<close> of rows that are pairwise adjacent,
  where \<open>c\<close> is adjacent to \<open>r\<close> when the slice of row \<open>r\<close> lists \<open>c\<close>.
\<close>

definition triangle_set :: "csrFormat \<Rightarrow> int \<Rightarrow> (int \<times> int \<times> int) set" where
  "triangle_set A N =
     {(a, b, c) \<in> {0..<N} \<times> {0..<N} \<times> {0..<N}.
        a < b \<and> b < c \<and> b \<in> set (neighbors A a) \<and> c \<in> set (neighbors A b) \<and> c \<in> set (neighbors A a)}"

definition triangles :: "csrFormat \<Rightarrow> int \<Rightarrow> nat" where
  "triangles A N = card (triangle_set A N)"

subsection \<open>What the threads of a launch find\<close>

text \<open>
  The matches a thread finds at entry \<open>j\<close> of row \<open>row\<close>: those of the edge to the column
  stored there when that column is larger than \<open>row\<close>, none otherwise.
\<close>

definition edge_count :: "csrFormat \<Rightarrow> int \<Rightarrow> int \<Rightarrow> nat" where
  "edge_count A row j =
     (let col = csrColInd A ! nat j
      in if col > row then the (edge A (csrRowPtr A ! nat (row + 1)) row col) else 0)"

text \<open>The indices a loop visits that starts at \<open>a\<close>, advances by \<open>S\<close> and stops at \<open>n\<close>.\<close>

definition strided :: "int \<Rightarrow> int \<Rightarrow> int \<Rightarrow> int set" where
  "strided a S n = {i\<in>{a..<n}. (i - a) mod S = 0}"

text \<open>The matches of one lane in one row, of a whole row, and of all rows.\<close>

definition lane_row :: "csrFormat \<Rightarrow> nat \<Rightarrow> int \<Rightarrow> nat" where
  "lane_row A lane row =
     (\<Sum>j\<in>strided (csrRowPtr A ! nat row + int lane) (int warpSize) (csrRowPtr A ! nat (row + 1)).
        edge_count A row j)"

definition row_total :: "csrFormat \<Rightarrow> int \<Rightarrow> nat" where
  "row_total A row = (\<Sum>j\<in>{csrRowPtr A ! nat row..<csrRowPtr A ! nat (row + 1)}. edge_count A row j)"

definition total_matches :: "csrFormat \<Rightarrow> int \<Rightarrow> nat" where
  "total_matches A N = (\<Sum>row\<in>{0..<N}. row_total A row)"

text \<open>The matches of thread \<open>t\<close> of block \<open>b\<close> in a grid of \<open>g\<close> blocks, as a sum.\<close>

definition thread_sum :: "csrFormat \<Rightarrow> int \<Rightarrow> nat \<Rightarrow> nat \<Rightarrow> nat \<Rightarrow> nat" where
  "thread_sum A N g b t =
     (\<Sum>r\<in>strided (int (t div warpSize) + int b * int numberOfWarps) (int numberOfWarps * int g) N.
        lane_row A (t mod warpSize) r)"

text \<open>
  The matches of the threads \<open>ts\<close> that belong to warp \<open>w\<close>, when thread \<open>t\<close> has \<open>m t\<close>,
  and what a block of \<open>blockDim\<close> such threads adds to the accumulator.
\<close>

definition warp_total :: "(nat \<Rightarrow> nat) \<Rightarrow> nat list \<Rightarrow> nat \<Rightarrow> nat" where
  "warp_total m ts w = (\<Sum>t\<leftarrow>ts. if t div warpSize = w then m t else 0)"

definition block_contrib :: "(nat \<Rightarrow> nat) \<Rightarrow> nat \<Rightarrow> 32 word" where
  "block_contrib m blockDim =
     (if 0 < blockDim
      then blockReduceSum (min blockDim warpSize) (\<lambda>w. of_nat (warp_total m [0..<blockDim] w)) 0
      else 0)"

section \<open>The intersection of two rows\<close>


lemma int_ivl_rec: "l < e \<Longrightarrow> {l..<e} = insert l {l + 1..<e}" for l e :: int
  by auto

lemma cnt_rec:
  "l < e \<Longrightarrow> cnt A l e v = (if csrColInd A ! nat l = v then 1 else 0) + cnt A (l + 1) e v"
  by (simp add: cnt_def int_ivl_rec [of l e])

lemma cnt_empty [simp]: "e \<le> l \<Longrightarrow> cnt A l e v = 0"
  by (simp add: cnt_def)

lemma cnt_zero: "(\<And>i. l \<le> i \<Longrightarrow> i < e \<Longrightarrow> csrColInd A ! nat i \<noteq> v) \<Longrightarrow> cnt A l e v = 0"
  by (simp add: cnt_def)

lemma l_loop_sorted:
  assumes "0 \<le> l" "e \<le> int (length (csrColInd A))"
    and "\<And>i j. l \<le> i \<Longrightarrow> i \<le> j \<Longrightarrow> j < e \<Longrightarrow> csrColInd A ! nat i \<le> csrColInd A ! nat j"
  shows "\<exists>b. l_loop A e v b0 l = Some (b, cnt A l e v) \<and>
           (b = b0 \<or> (l \<le> b \<and> b < e \<and> v < csrColInd A ! nat b \<and>
              (\<forall>i. l \<le> i \<and> i < b \<longrightarrow> csrColInd A ! nat i \<le> v)))"
  using assms
proof (induction A e v b0 l rule: l_loop.induct)
  case (1 A e v b0 l)
  show ?case
  proof (cases "l < e")
    case False
    then show ?thesis by simp
  next
    case True
    with 1 have r: "rd (csrColInd A) l = Some (csrColInd A ! nat l)"
      by (simp add: rd_def)
    let ?c = "csrColInd A ! nat l"
    have srt: "\<And>i j. l + 1 \<le> i \<Longrightarrow> i \<le> j \<Longrightarrow> j < e \<Longrightarrow> csrColInd A ! nat i \<le> csrColInd A ! nat j"
      using "1.prems"(3) by simp
    consider (eq) "v = ?c" | (gt) "v < ?c" | (lt) "?c < v" by linarith
    then show ?thesis
    proof cases
      case eq
      from "1.IH"(1) [OF True r eq _ "1.prems"(2) srt] "1.prems"(1)
      obtain b where b: "l_loop A e v b0 (l + 1) = Some (b, cnt A (l + 1) e v)"
        and b': "b = b0 \<or> (l + 1 \<le> b \<and> b < e \<and> v < csrColInd A ! nat b \<and>
              (\<forall>i. l + 1 \<le> i \<and> i < b \<longrightarrow> csrColInd A ! nat i \<le> v))"
        by auto
      have "\<forall>i. l \<le> i \<and> i < b \<longrightarrow> csrColInd A ! nat i \<le> v" if "\<forall>i. l + 1 \<le> i \<and> i < b \<longrightarrow> csrColInd A ! nat i \<le> v"
      proof (intro allI impI)
        fix i assume "l \<le> i \<and> i < b"
        then show "csrColInd A ! nat i \<le> v" using that eq by (cases "i = l") auto
      qed
      with b b' True r eq show ?thesis
        by (subst l_loop.simps) (auto simp: cnt_rec [OF True])
    next
      case gt
      have "cnt A l e v = 0"
      proof (rule cnt_zero)
        fix i assume "l \<le> i" "i < e"
        with "1.prems"(3) [of l i] gt show "csrColInd A ! nat i \<noteq> v" by auto
      qed
      with gt True r show ?thesis
        by (subst l_loop.simps) auto
    next
      case lt
      then have ne: "v \<noteq> ?c" "\<not> v < ?c" by auto
      from "1.IH"(2) [OF True r ne(1) _ _ "1.prems"(2) srt] ne "1.prems"(1)
      obtain b where b: "l_loop A e v b0 (l + 1) = Some (b, cnt A (l + 1) e v)"
        and b': "b = b0 \<or> (l + 1 \<le> b \<and> b < e \<and> v < csrColInd A ! nat b \<and>
              (\<forall>i. l + 1 \<le> i \<and> i < b \<longrightarrow> csrColInd A ! nat i \<le> v))"
        by auto
      have "\<forall>i. l \<le> i \<and> i < b \<longrightarrow> csrColInd A ! nat i \<le> v" if "\<forall>i. l + 1 \<le> i \<and> i < b \<longrightarrow> csrColInd A ! nat i \<le> v"
      proof (intro allI impI)
        fix i assume "l \<le> i \<and> i < b"
        then show "csrColInd A ! nat i \<le> v" using that lt by (cases "i = l") auto
      qed
      with b b' True r ne show ?thesis
        by (subst l_loop.simps) (auto simp: cnt_rec [OF True])
    qed
  qed
qed


lemma l_loop_safe:
  assumes "0 \<le> l" "e \<le> int (length (csrColInd A))"
  shows "\<exists>b n. l_loop A e v b0 l = Some (b, n) \<and> (b = b0 \<or> (l \<le> b \<and> b < e))"
  using assms
proof (induction A e v b0 l rule: l_loop.induct)
  case (1 A e v b0 l)
  show ?case
  proof (cases "l < e")
    case False
    then show ?thesis by simp
  next
    case True
    with 1 have r: "rd (csrColInd A) l = Some (csrColInd A ! nat l)"
      by (simp add: rd_def)
    let ?c = "csrColInd A ! nat l"
    consider (eq) "v = ?c" | (gt) "v < ?c" | (lt) "?c < v" by linarith
    then show ?thesis
    proof cases
      case eq
      from "1.IH"(1) [OF True r eq _ "1.prems"(2)] "1.prems"(1)
      obtain b n where "l_loop A e v b0 (l + 1) = Some (b, n)" "b = b0 \<or> (l + 1 \<le> b \<and> b < e)"
        by auto
      with True r eq show ?thesis
        by (subst l_loop.simps) auto
    next
      case gt
      with True r show ?thesis
        by (subst l_loop.simps) auto
    next
      case lt
      then have ne: "v \<noteq> ?c" "\<not> v < ?c" by auto
      from "1.IH"(2) [OF True r ne(1) _ _ "1.prems"(2)] ne "1.prems"(1)
      obtain b n where "l_loop A e v b0 (l + 1) = Some (b, n)" "b = b0 \<or> (l + 1 \<le> b \<and> b < e)"
        by auto
      with True r ne show ?thesis
        by (subst l_loop.simps) auto
    qed
  qed
qed

lemma k_loop_safe:
  assumes "0 \<le> b" "0 \<le> k" "e_row \<le> int (length (csrColInd A))" "e_col \<le> int (length (csrColInd A))"
  shows "\<exists>n. k_loop A e_row e_col b k = Some n"
  using assms
proof (induction A e_row e_col b k rule: k_loop.induct)
  case (1 A e_row e_col b k)
  show ?case
  proof (cases "k < e_col")
    case False
    then show ?thesis by simp
  next
    case True
    with 1 have r: "rd (csrColInd A) k = Some (csrColInd A ! nat k)"
      by (simp add: rd_def)
    from l_loop_safe [OF "1.prems"(1,3), of "csrColInd A ! nat k" b]
    obtain b' n where l: "l_loop A e_row (csrColInd A ! nat k) b b = Some (b', n)"
      and b': "b' = b \<or> (b \<le> b' \<and> b' < e_row)" by blast
    from b' "1.prems"(1) have "0 \<le> b'" by auto
    from "1.IH" [OF True r _ _ this _ "1.prems"(3,4), of "(b', n)" n] l "1.prems"(2)
    obtain m where "k_loop A e_row e_col b' (k + 1) = Some m" by auto
    with True r l show ?thesis
      by (subst k_loop.simps) simp
  qed
qed

lemma cnt_split:
  assumes "s \<le> b" "b \<le> e"
  shows "cnt A s e v = cnt A s b v + cnt A b e v"
proof -
  have "{s..<e} = {s..<b} \<union> {b..<e}" "{s..<b} \<inter> {b..<e} = {}"
    using assms by auto
  then show ?thesis
    by (simp add: cnt_def sum.union_disjoint)
qed

lemma k_loop_sorted:
  assumes "0 \<le> s" "s \<le> b" "b \<le> e_row" "e_row \<le> int (length (csrColInd A))"
    and "0 \<le> k" "e_col \<le> int (length (csrColInd A))"
    and row: "\<And>i j. s \<le> i \<Longrightarrow> i \<le> j \<Longrightarrow> j < e_row \<Longrightarrow> csrColInd A ! nat i \<le> csrColInd A ! nat j"
    and col: "\<And>i j. k \<le> i \<Longrightarrow> i < j \<Longrightarrow> j < e_col \<Longrightarrow> csrColInd A ! nat i < csrColInd A ! nat j"
    and inv: "\<And>i. k < e_col \<Longrightarrow> s \<le> i \<Longrightarrow> i < b \<Longrightarrow> csrColInd A ! nat i < csrColInd A ! nat k"
  shows "k_loop A e_row e_col b k = Some (\<Sum>k'\<in>{k..<e_col}. cnt A s e_row (csrColInd A ! nat k'))"
  using assms
proof (induction A e_row e_col b k rule: k_loop.induct)
  case (1 A e_row e_col b k)
  show ?case
  proof (cases "k < e_col")
    case False
    then show ?thesis by simp
  next
    case True
    let ?C = "\<lambda>i. csrColInd A ! nat i"
    let ?v = "?C k"
    from True 1 have r: "rd (csrColInd A) k = Some ?v"
      by (simp add: rd_def)
    have "0 \<le> b" using "1.prems" by simp
    from l_loop_sorted [OF this "1.prems"(4), of ?v b] "1.prems"(2,7)
    obtain b' where l: "l_loop A e_row ?v b b = Some (b', cnt A b e_row ?v)"
      and b': "b' = b \<or> (b \<le> b' \<and> b' < e_row \<and> ?v < ?C b' \<and> (\<forall>i. b \<le> i \<and> i < b' \<longrightarrow> ?C i \<le> ?v))"
      by force
    have "cnt A s b ?v = 0"
      by (rule cnt_zero) (use "1.prems"(9) [OF True] in force)
    then have c: "cnt A b e_row ?v = cnt A s e_row ?v"
      using cnt_split [OF "1.prems"(2,3)] by simp
    have b1: "s \<le> b'" "b' \<le> e_row" using b' "1.prems"(2,3) by auto
    have col': "\<And>i j. k + 1 \<le> i \<Longrightarrow> i < j \<Longrightarrow> j < e_col \<Longrightarrow> ?C i < ?C j"
      using "1.prems"(8) by simp
    have inv': "?C i < ?C (k + 1)" if "k + 1 < e_col" "s \<le> i" "i < b'" for i
    proof -
      have lt: "?v < ?C (k + 1)" using "1.prems"(8) [of k "k + 1"] that by simp
      show ?thesis
      proof (cases "i < b")
        case True
        with "1.prems"(9) [OF \<open>k < e_col\<close> that(2)] lt show ?thesis by simp
      next
        case False
        with b' that have "?C i \<le> ?v" by auto
        with lt show ?thesis by simp
      qed
    qed
    have "k_loop A e_row e_col b' (k + 1) = Some (\<Sum>k'\<in>{k + 1..<e_col}. cnt A s e_row (?C k'))"
      by (rule "1.IH" [OF True r _ _ "1.prems"(1) b1 "1.prems"(4) _ "1.prems"(6,7) col' inv'])
        (use l "1.prems"(5) in auto)
    with True r l c show ?thesis
      by (subst k_loop.simps) (simp add: int_ivl_rec [OF True])
  qed
qed


lemma sum_slice:
  assumes "0 \<le> s" "s \<le> e" "e \<le> int (length xs)"
  shows "(\<Sum>i\<in>{s..<e}. f (xs ! nat i)) = sum_list (map f (take (nat (e - s)) (drop (nat s) xs)))"
  using assms
proof (induction "nat (e - s)" arbitrary: s)
  case 0
  then show ?case by simp
next
  case (Suc n)
  then have lt: "s < e" by linarith
  have n: "n = nat (e - (s + 1))" using Suc by linarith
  have d: "drop (nat s) xs = xs ! nat s # drop (nat (s + 1)) xs"
    using Suc.prems lt by (simp add: Cons_nth_drop_Suc nat_add_distrib)
  have "(\<Sum>i\<in>{s + 1..<e}. f (xs ! nat i)) = sum_list (map f (take (nat (e - (s + 1))) (drop (nat (s + 1)) xs)))"
    by (rule Suc.hyps(1) [OF n]) (use Suc.prems lt in auto)
  then show ?case
    using Suc.hyps(2) n by (simp add: int_ivl_rec [OF lt] d flip: Suc.hyps(2))
qed


lemma wf_rowptr_mono:
  assumes "wf_csr A N" "0 \<le> r" "r \<le> r'" "r' \<le> N"
  shows "csrRowPtr A ! nat r \<le> csrRowPtr A ! nat r'"
proof -
  from assms have "sorted (csrRowPtr A)" "nat r \<le> nat r'" "nat r' < length (csrRowPtr A)"
    by (auto simp: wf_csr_def)
  then show ?thesis by (simp add: sorted_iff_nth_mono)
qed

lemma wf_rowptr_bounds:
  assumes "wf_csr A N" "0 \<le> r" "r \<le> N"
  shows "0 \<le> csrRowPtr A ! nat r" "csrRowPtr A ! nat r \<le> int (length (csrColInd A))"
proof -
  from assms have ne: "csrRowPtr A \<noteq> []" and len: "int (length (csrRowPtr A)) = N + 1"
    by (auto simp: wf_csr_def)
  have "hd (csrRowPtr A) = csrRowPtr A ! nat 0"
    using ne by (simp add: hd_conv_nth)
  with wf_rowptr_mono [OF assms(1), of 0 r] assms show "0 \<le> csrRowPtr A ! nat r"
    by (simp add: wf_csr_def)
  have "last (csrRowPtr A) = csrRowPtr A ! nat N"
  proof -
    from len have "length (csrRowPtr A) - 1 = nat N" by linarith
    with ne show ?thesis by (simp add: last_conv_nth)
  qed
  with wf_rowptr_mono [OF assms(1), of r N] assms show "csrRowPtr A ! nat r \<le> int (length (csrColInd A))"
    by (simp add: wf_csr_def)
qed

lemma wf_rd_rowptr:
  assumes "wf_csr A N" "0 \<le> r" "r \<le> N"
  shows "rd (csrRowPtr A) r = Some (csrRowPtr A ! nat r)"
  using assms by (simp add: rd_def wf_csr_def)

lemma wf_col_range:
  assumes "wf_csr A N" "0 \<le> i" "i < int (length (csrColInd A))"
  shows "0 \<le> csrColInd A ! nat i" "csrColInd A ! nat i < N"
proof -
  from assms have "csrColInd A ! nat i \<in> set (csrColInd A)" by simp
  with assms(1) show "0 \<le> csrColInd A ! nat i" "csrColInd A ! nat i < N"
    by (auto simp: wf_csr_def)
qed

lemma slice_length:
  assumes "0 \<le> s" "s \<le> e" "e \<le> int (length xs)"
  shows "length (take (nat (e - s)) (drop (nat s) xs)) = nat (e - s)"
  using assms by simp

lemma slice_nth:
  assumes "0 \<le> s" "s \<le> i" "i < e" "e \<le> int (length xs)"
  shows "take (nat (e - s)) (drop (nat s) xs) ! nat (i - s) = xs ! nat i"
proof -
  have "nat (i - s) < nat (e - s)" "nat s + nat (i - s) = nat i" "nat i < length xs"
    using assms by linarith+
  then show ?thesis by simp
qed

lemma slice_map_nth:
  assumes "0 \<le> s" "s \<le> e" "e \<le> int (length xs)"
  shows "take (nat (e - s)) (drop (nat s) xs) = map ((!) xs) [nat s..<nat e]"
proof (rule nth_equalityI)
  show "length (take (nat (e - s)) (drop (nat s) xs)) = length (map ((!) xs) [nat s..<nat e])"
    using assms by simp
  fix i assume "i < length (take (nat (e - s)) (drop (nat s) xs))"
  then have "i < nat (e - s)" "nat s + i < length xs" "i < nat e - nat s"
    using assms by simp_all
  then show "take (nat (e - s)) (drop (nat s) xs) ! i = map ((!) xs) [nat s..<nat e] ! i"
    by simp
qed

lemma slice_sorted:
  assumes "0 \<le> s" "e \<le> int (length xs)" "sorted (take (nat (e - s)) (drop (nat s) xs))"
    and "s \<le> i" "i \<le> j" "j < e"
  shows "xs ! nat i \<le> xs ! nat j"
proof -
  let ?ys = "take (nat (e - s)) (drop (nat s) xs)"
  have "s \<le> e" using assms by linarith
  have "nat (i - s) \<le> nat (j - s)" "nat (j - s) < nat (e - s)"
    using assms by linarith+
  then have "?ys ! nat (i - s) \<le> ?ys ! nat (j - s)"
    using slice_length [OF assms(1) \<open>s \<le> e\<close> assms(2)] by (intro sorted_nth_mono [OF assms(3)]) simp_all
  moreover have "?ys ! nat (i - s) = xs ! nat i"
    by (rule slice_nth) (use assms in linarith)+
  moreover have "?ys ! nat (j - s) = xs ! nat j"
    by (rule slice_nth) (use assms in linarith)+
  ultimately show ?thesis by simp
qed

lemma slice_strict:
  assumes "0 \<le> s" "e \<le> int (length xs)" "sorted_wrt (<) (take (nat (e - s)) (drop (nat s) xs))"
    and "s \<le> i" "i < j" "j < e"
  shows "xs ! nat i < xs ! nat j"
proof -
  let ?ys = "take (nat (e - s)) (drop (nat s) xs)"
  have "s \<le> e" using assms by linarith
  have "nat (i - s) < nat (j - s)" "nat (j - s) < nat (e - s)"
    using assms by linarith+
  then have "?ys ! nat (i - s) < ?ys ! nat (j - s)"
    using slice_length [OF assms(1) \<open>s \<le> e\<close> assms(2)] by (intro sorted_wrt_nth_less [OF assms(3)]) simp_all
  moreover have "?ys ! nat (i - s) = xs ! nat i"
    by (rule slice_nth) (use assms in linarith)+
  moreover have "?ys ! nat (j - s) = xs ! nat j"
    by (rule slice_nth) (use assms in linarith)+
  ultimately show ?thesis by simp
qed

lemma wf_row:
  assumes "wf_csr A N" "0 \<le> r" "r < N"
  shows "0 \<le> csrRowPtr A ! nat r" "csrRowPtr A ! nat r \<le> csrRowPtr A ! nat (r + 1)"
    "csrRowPtr A ! nat (r + 1) \<le> int (length (csrColInd A))"
  using wf_rowptr_bounds [OF assms(1), of "r + 1"] wf_rowptr_bounds [OF assms(1), of r]
    wf_rowptr_mono [OF assms(1), of r "r + 1"] assms by simp_all

lemma nbr_sorted:
  assumes "wf_csr A N" "0 \<le> r" "r < N" "sorted (neighbors A r)"
    and "csrRowPtr A ! nat r \<le> i" "i \<le> j" "j < csrRowPtr A ! nat (r + 1)"
  shows "csrColInd A ! nat i \<le> csrColInd A ! nat j"
  using wf_row(1,3) [OF assms(1-3)] assms(4) [unfolded neighbors_def Let_def] assms(5-7)
  by (rule slice_sorted)

lemma nbr_strict:
  assumes "wf_csr A N" "0 \<le> r" "r < N" "sorted_wrt (<) (neighbors A r)"
    and "csrRowPtr A ! nat r \<le> i" "i < j" "j < csrRowPtr A ! nat (r + 1)"
  shows "csrColInd A ! nat i < csrColInd A ! nat j"
  using wf_row(1,3) [OF assms(1-3)] assms(4) [unfolded neighbors_def Let_def] assms(5-7)
  by (rule slice_strict)

lemma nbr_sum:
  assumes "wf_csr A N" "0 \<le> r" "r < N"
  shows "(\<Sum>i\<in>{csrRowPtr A ! nat r..<csrRowPtr A ! nat (r + 1)}. f (csrColInd A ! nat i))
           = sum_list (map f (neighbors A r))"
proof -
  show ?thesis
    unfolding neighbors_def Let_def by (rule sum_slice [OF wf_row [OF assms]])
qed

lemma length_filter_sum: "length (filter P xs) = (\<Sum>x\<leftarrow>xs. if P x then 1 else 0)"
  by (induction xs) auto

lemma cnt_nbr:
  assumes "wf_csr A N" "0 \<le> r" "r < N"
  shows "cnt A (csrRowPtr A ! nat r) (csrRowPtr A ! nat (r + 1)) v
           = length (filter (\<lambda>x. v = x) (neighbors A r))"
  unfolding cnt_def length_filter_sum
  using nbr_sum [OF assms, of "\<lambda>x. if x = v then 1 else 0"]
  by (simp add: eq_commute)

lemma nbr_range:
  assumes "wf_csr A N" "c \<in> set (neighbors A r)"
  shows "0 \<le> c" "c < N"
proof -
  from assms(2) have "c \<in> set (csrColInd A)"
    unfolding neighbors_def Let_def by (meson in_set_takeD in_set_dropD)
  with assms(1) show "0 \<le> c" "c < N"
    by (auto simp: wf_csr_def)
qed

text \<open>The matches of an edge when every read is in range.\<close>

lemma edge_safe:
  assumes "wf_csr A N" "0 \<le> row" "row < N" "0 \<le> col" "col < N"
  shows "\<exists>n. edge A (csrRowPtr A ! nat (row + 1)) row col = Some n"
proof -
  have "0 \<le> csrRowPtr A ! nat row" "0 \<le> csrRowPtr A ! nat col"
    "csrRowPtr A ! nat (row + 1) \<le> int (length (csrColInd A))"
    "csrRowPtr A ! nat (col + 1) \<le> int (length (csrColInd A))"
    using wf_rowptr_bounds [OF assms(1), of "row + 1"] wf_rowptr_bounds [OF assms(1), of row]
      wf_rowptr_bounds [OF assms(1), of "col + 1"] wf_rowptr_bounds [OF assms(1), of col] assms
    by simp_all
  then have "\<exists>n. k_loop A (csrRowPtr A ! nat (row + 1)) (csrRowPtr A ! nat (col + 1))
      (csrRowPtr A ! nat row) (csrRowPtr A ! nat col) = Some n"
    by (rule k_loop_safe)
  then show ?thesis
    using assms by (simp add: edge_def wf_rd_rowptr [OF assms(1)])
qed

lemma edge_sorted:
  assumes "wf_csr A N" "0 \<le> row" "row < N" "0 \<le> col" "col < N"
    and "sorted (neighbors A row)" "sorted_wrt (<) (neighbors A col)"
  shows "edge A (csrRowPtr A ! nat (row + 1)) row col = Some (naive_intersection A row col)"
proof -
  let ?rs = "csrRowPtr A ! nat row" and ?re = "csrRowPtr A ! nat (row + 1)"
  let ?cs = "csrRowPtr A ! nat col" and ?ce = "csrRowPtr A ! nat (col + 1)"
  have "k_loop A ?re ?ce ?rs ?cs = Some (\<Sum>k\<in>{?cs..<?ce}. cnt A ?rs ?re (csrColInd A ! nat k))"
  proof (rule k_loop_sorted [where s = ?rs])
    show "0 \<le> ?rs" "?rs \<le> ?re" "?re \<le> int (length (csrColInd A))" "0 \<le> ?cs"
      "?ce \<le> int (length (csrColInd A))"
      using wf_rowptr_bounds [OF assms(1), of "row + 1"] wf_rowptr_bounds [OF assms(1), of row]
        wf_rowptr_bounds [OF assms(1), of "col + 1"] wf_rowptr_bounds [OF assms(1), of col]
        wf_rowptr_mono [OF assms(1), of row "row + 1"] assms
      by simp_all
    show "csrColInd A ! nat i \<le> csrColInd A ! nat j" if "?rs \<le> i" "i \<le> j" "j < ?re" for i j
      using that by (rule nbr_sorted [OF assms(1-3,6)])
    show "csrColInd A ! nat i < csrColInd A ! nat j" if "?cs \<le> i" "i < j" "j < ?ce" for i j
      using that by (rule nbr_strict [OF assms(1,4,5,7)])
    show "csrColInd A ! nat i < csrColInd A ! nat ?cs" if "?rs \<le> i" "i < ?rs" for i
    proof -
      from that(2,1) have "i < i" by (rule order.strict_trans2)
      then show ?thesis by simp
    qed
  qed (rule order_refl)
  also have "(\<Sum>k\<in>{?cs..<?ce}. cnt A ?rs ?re (csrColInd A ! nat k)) = naive_intersection A row col"
    unfolding naive_intersection_def cnt_nbr [OF assms(1-3)]
    by (rule nbr_sum [OF assms(1,4,5)])
  finally show ?thesis
    using assms by (simp add: edge_def wf_rd_rowptr [OF assms(1)])
qed

lemma naive_distinct:
  assumes "distinct (neighbors A row)" "distinct (neighbors A col)"
  shows "naive_intersection A row col = card (set (neighbors A row) \<inter> set (neighbors A col))"
proof -
  have 1: "length (filter (\<lambda>x. v = x) xs) = (if v \<in> set xs then 1 else 0)" if "distinct xs"
    for v :: int and xs
    using that by (induction xs) auto
  have "naive_intersection A row col
      = (\<Sum>v\<leftarrow>neighbors A col. if v \<in> set (neighbors A row) then 1 else 0)"
    unfolding naive_intersection_def 1 [OF assms(1)] ..
  also have "\<dots> = length (filter (\<lambda>v. v \<in> set (neighbors A row)) (neighbors A col))"
    by (rule length_filter_sum [symmetric])
  also have "\<dots> = card (set (filter (\<lambda>v. v \<in> set (neighbors A row)) (neighbors A col)))"
    using assms(2) by (subst distinct_card) simp_all
  also have "set (filter (\<lambda>v. v \<in> set (neighbors A row)) (neighbors A col))
      = set (neighbors A row) \<inter> set (neighbors A col)"
    by auto
  finally show ?thesis .
qed

lemma naive_pairs:
  assumes "wf_csr A N" "0 \<le> row" "row < N" "0 \<le> col" "col < N"
  shows "naive_intersection A row col = length (match_pairs A row col)"
proof -
  let ?rs = "csrRowPtr A ! nat row" and ?re = "csrRowPtr A ! nat (row + 1)"
  let ?cs = "csrRowPtr A ! nat col" and ?ce = "csrRowPtr A ! nat (col + 1)"
  have len: "length (match_pairs A row col)
      = (\<Sum>k\<leftarrow>[nat ?cs..<nat ?ce]. \<Sum>l\<leftarrow>[nat ?rs..<nat ?re]. if csrColInd A ! k = csrColInd A ! l then 1 else 0)"
    by (simp add: match_pairs_def length_concat comp_def if_distrib [of length] cong: if_cong)
  have "neighbors A row = map ((!) (csrColInd A)) [nat ?rs..<nat ?re]"
    "neighbors A col = map ((!) (csrColInd A)) [nat ?cs..<nat ?ce]"
    unfolding neighbors_def Let_def
    by (rule slice_map_nth [OF wf_row [OF assms(1-3)]], rule slice_map_nth [OF wf_row [OF assms(1,4,5)]])
  then show ?thesis
    unfolding len naive_intersection_def length_filter_sum
    by (simp add: comp_def)
qed

text \<open>
  C7. On a well-formed structure whose rows are strictly ascending, the memoized scan of a
  processed edge \<open>(row, col)\<close>, \<open>col > row\<close>, records as many matches as the naive
  intersection that scans the whole slice of \<open>row\<close> again for every entry of \<open>col\<close>, and
  that number is the size of the intersection of the two neighbour sets.
\<close>

theorem memoized_scan_eq_naive:
  assumes "wf_csr A N" "rows_strict A N" "0 \<le> row" "row < N"
    and "col \<in> set (neighbors A row)" "row < col"
  shows "edge A (csrRowPtr A ! nat (row + 1)) row col = Some (naive_intersection A row col) \<and>
         naive_intersection A row col = card (set (neighbors A row) \<inter> set (neighbors A col))"
proof -
  have col: "0 \<le> col" "col < N"
    using nbr_range [OF assms(1,5)] assms(3,6) by simp_all
  from assms(2-4) col have s: "sorted_wrt (<) (neighbors A row)" "sorted_wrt (<) (neighbors A col)"
    by (simp_all add: rows_strict_def)
  then have d: "distinct (neighbors A row)" "distinct (neighbors A col)"
    by (simp_all add: strict_sorted_iff)
  from s(1) have "sorted (neighbors A row)"
    by (simp add: strict_sorted_iff)
  with edge_sorted [OF assms(1,3,4) col _ s(2)] naive_distinct [OF d] show ?thesis
    by simp
qed

theorem memoized_scan_eq_naive_witness:
  "wf_csr K3 3 \<and> rows_strict K3 3 \<and> (0::int) \<le> 0 \<and> (0::int) < 3 \<and> 1 \<in> set (neighbors K3 0) \<and>
   (0::int) < 1 \<and>
   edge K3 (csrRowPtr K3 ! nat (0 + 1)) 0 1 = Some (naive_intersection K3 0 1) \<and>
   naive_intersection K3 0 1 = card (set (neighbors K3 0) \<inter> set (neighbors K3 1)) \<and>
   naive_intersection K3 0 1 = 1"
proof -
  have h: "wf_csr K3 3" "rows_strict K3 3" "(0::int) \<le> 0" "(0::int) < 3"
    "1 \<in> set (neighbors K3 0)" "(0::int) < 1"
    by code_simp+
  have n: "naive_intersection K3 0 1 = 1"
    by code_simp
  note t = memoized_scan_eq_naive [OF h]
  show ?thesis
    using h t [THEN conjunct1] t [THEN conjunct2] n by (intro conjI) assumption+
qed

text \<open>
  C10, as stated, fails: in \<open>dupG\<close> the processed edge \<open>(0, 1)\<close> has two index pairs with
  equal column values (row 1 lists column 1 twice), and the scan records one match.
\<close>

theorem pair_count_counterexample:
  "wf_csr dupG 3 \<and> rows_sorted dupG 3 \<and> symmetric dupG 3 \<and> 1 \<in> set (neighbors dupG 0) \<and>
   edge dupG (csrRowPtr dupG ! nat (0 + 1)) 0 1 = Some 1 \<and>
   length (match_pairs dupG 0 1) = 2"
  by code_simp

text \<open>
  C10, amended. On a well-formed structure, for a processed edge \<open>(row, col)\<close>, \<open>col > row\<close>,
  whose \<open>row\<close> slice is sorted ascending and whose \<open>col\<close> slice is strictly ascending, the
  number of matches recorded is the number of index pairs \<open>(k, l)\<close> with equal column
  values; a column index repeated in the slice of \<open>row\<close> is counted once per pair (in
  \<open>dupR\<close>, row 0 lists column 2 twice and the edge \<open>(0, 1)\<close> records 2 matches).
\<close>

theorem edge_counts_equal_pairs:
  assumes "wf_csr A N" "0 \<le> row" "row < N" "col \<in> set (neighbors A row)" "row < col"
    and "sorted (neighbors A row)" "sorted_wrt (<) (neighbors A col)"
  shows "edge A (csrRowPtr A ! nat (row + 1)) row col = Some (length (match_pairs A row col))"
proof -
  have col: "0 \<le> col" "col < N"
    using nbr_range [OF assms(1,4)] assms(2,5) by simp_all
  show ?thesis
    using edge_sorted [OF assms(1-3) col assms(6,7)] naive_pairs [OF assms(1-3) col] by simp
qed

theorem edge_counts_equal_pairs_witness:
  "wf_csr dupR 3 \<and> (0::int) \<le> 0 \<and> (0::int) < 3 \<and> 1 \<in> set (neighbors dupR 0) \<and> (0::int) < 1 \<and>
   sorted (neighbors dupR 0) \<and> sorted_wrt (<) (neighbors dupR 1) \<and>
   edge dupR (csrRowPtr dupR ! nat (0 + 1)) 0 1 = Some (length (match_pairs dupR 0 1)) \<and>
   neighbors dupR 0 = [1, 2, 2] \<and> neighbors dupR 1 = [0, 2] \<and>
   length (match_pairs dupR 0 1) = 2"
proof -
  have h: "wf_csr dupR 3" "(0::int) \<le> 0" "(0::int) < 3" "1 \<in> set (neighbors dupR 0)" "(0::int) < 1"
    "sorted (neighbors dupR 0)" "sorted_wrt (<) (neighbors dupR 1)"
    by code_simp+
  have n: "neighbors dupR 0 = [1, 2, 2]" "neighbors dupR 1 = [0, 2]"
    "length (match_pairs dupR 0 1) = 2"
    by code_simp+
  show ?thesis
    using h edge_counts_equal_pairs [OF h] n by (intro conjI) assumption+
qed

section \<open>The reductions of a block\<close>

lemma zero_sum_Suc:
  "zero_sum (Suc n) s =
     (if n div warpSize = 0 then (zero_sum n s)(n mod warpSize := 0) else zero_sum n s)"
  by (simp add: zero_sum_def)

lemma zero_sum_eq: "zero_sum n s x = (if x < min n warpSize then 0 else s x)"
proof (induction n)
  case 0
  then show ?case by (simp add: zero_sum_def)
next
  case (Suc n)
  show ?case
  proof (cases "n < warpSize")
    case True
    then have "n div warpSize = 0" "n mod warpSize = n" by simp_all
    with Suc True show ?thesis
      by (auto simp: zero_sum_Suc)
  next
    case False
    then have "n div warpSize \<noteq> 0"
      by (simp add: warpSize_def div_eq_0_iff)
    with Suc False show ?thesis
      by (auto simp: zero_sum_Suc)
  qed
qed

lemma warpReduceSum_single:
  "(warpReduceSum [t] ^^ n) s = s(t div warpSize := s (t div warpSize) + of_nat n)"
proof (induction n)
  case 0
  then show ?case by simp
next
  case (Suc n)
  then show ?case
    by (simp add: warpReduceSum_def Let_def fun_eq_iff)
qed

lemma rows_phase_eq:
  assumes "\<forall>t\<in>set ts. thread_matches A N g b t = Some (m t)"
  shows "rows_phase A N g b ts s = Some (\<lambda>w. s w + of_nat (warp_total m ts w))"
  using assms
proof (induction ts arbitrary: s)
  case Nil
  then show ?case by (simp add: warp_total_def)
next
  case (Cons t ts)
  then have "rows_phase A N g b ts ((warpReduceSum [t] ^^ m t) s)
      = Some (\<lambda>w. ((warpReduceSum [t] ^^ m t) s) w + of_nat (warp_total m ts w))"
    by simp
  with Cons.prems show ?case
    by (simp add: warpReduceSum_single warp_total_def fun_eq_iff)
qed

lemma rows_phase_frame:
  assumes "rows_phase A N g b ts s0 = Some s" "\<forall>t\<in>set ts. t div warpSize \<noteq> x"
  shows "s x = s0 x"
  using assms
proof (induction ts arbitrary: s0)
  case Nil
  then show ?case by simp
next
  case (Cons t ts)
  from Cons.prems(1) obtain n where n: "thread_matches A N g b t = Some n"
    and r: "rows_phase A N g b ts ((warpReduceSum [t] ^^ n) s0) = Some s"
    by (auto split: Option.bind_splits)
  from Cons.IH [OF r] Cons.prems(2) have "s x = ((warpReduceSum [t] ^^ n) s0) x"
    by simp
  with Cons.prems(2) show ?case
    by (simp add: warpReduceSum_single)
qed

lemma reduce_round_upt:
  "fold (\<lambda>lane t. if lane < i then t(lane := t lane + t (lane + i)) else t) [0..<n] temp
     = (\<lambda>x. if x < n \<and> x < i then temp x + temp (x + i) else temp x)"
proof (induction n)
  case 0
  then show ?case by simp
next
  case (Suc n)
  then show ?case
    by (auto simp: fun_eq_iff)
qed

lemma reduce_round_eq:
  "reduce_round gsize i temp = (\<lambda>x. if x < gsize \<and> x < i then temp x + temp (x + i) else temp x)"
  unfolding reduce_round_def by (rule reduce_round_upt)

lemma reduce_rounds_0: "reduce_rounds gsize 0 temp = temp"
  by (subst reduce_rounds.simps) simp

lemma reduce_rounds_pos:
  "0 < i \<Longrightarrow> reduce_rounds gsize i temp = reduce_rounds gsize (i div 2) (reduce_round gsize i temp)"
  by (subst reduce_rounds.simps) simp

lemma reduce_rounds_pow2:
  assumes "2 ^ k \<le> gsize"
  shows "reduce_rounds gsize (2 ^ k) temp 0 = (\<Sum>x<2 ^ Suc k. temp x)"
  using assms
proof (induction k arbitrary: temp)
  case 0
  then show ?case
    by (simp add: reduce_rounds_pos reduce_rounds_0 reduce_round_eq lessThan_Suc numeral_2_eq_2)
next
  case (Suc k)
  let ?i = "2 ^ Suc k :: nat"
  let ?t = "reduce_round gsize ?i temp"
  have lt: "x < gsize" if "x < ?i" for x using that Suc.prems by simp
  have "reduce_rounds gsize ?i temp 0 = reduce_rounds gsize (2 ^ k) ?t 0"
    by (subst reduce_rounds_pos) simp_all
  also have "\<dots> = (\<Sum>x<?i. ?t x)"
    using Suc.prems by (intro Suc.IH) simp
  also have "\<dots> = (\<Sum>x<?i. temp x + temp (x + ?i))"
    by (intro sum.cong refl) (simp add: reduce_round_eq lt)
  also have "\<dots> = (\<Sum>x<?i. temp x) + (\<Sum>x<?i. temp (x + ?i))"
    by (rule sum.distrib)
  also have "(\<Sum>x<?i. temp (x + ?i)) = (\<Sum>x\<in>{?i..<?i + ?i}. temp x)"
    by (rule sum.reindex_bij_witness [where i = "\<lambda>x. x - ?i" and j = "\<lambda>x. x + ?i"]) auto
  also have "(\<Sum>x<?i. temp x) + (\<Sum>x\<in>{?i..<?i + ?i}. temp x) = (\<Sum>x<?i + ?i. temp x)"
    by (simp add: lessThan_atLeast0 sum.atLeastLessThan_concat)
  finally show ?case by simp
qed

lemma reduce_rounds_cong:
  assumes "\<forall>x<n. s x = s' x" "2 * i \<le> n"
  shows "\<forall>x<n. reduce_rounds gsize i s x = reduce_rounds gsize i s' x"
  using assms
proof (induction gsize i s arbitrary: s' rule: reduce_rounds.induct)
  case (1 gsize i s)
  show ?case
  proof (cases "0 < i")
    case False
    with 1 show ?thesis by (simp add: reduce_rounds_0)
  next
    case True
    have "\<forall>x<n. reduce_round gsize i s x = reduce_round gsize i s' x"
      using "1.prems" by (auto simp: reduce_round_eq)
    moreover have "2 * (i div 2) \<le> n" using "1.prems"(2) by simp
    ultimately have "\<forall>x<n. reduce_rounds gsize (i div 2) (reduce_round gsize i s) x
        = reduce_rounds gsize (i div 2) (reduce_round gsize i s') x"
      by (rule "1.IH" [OF True])
    with True show ?thesis
      by (simp only: reduce_rounds_pos)
  qed
qed


lemma block_eq:
  assumes "\<forall>t<blockDim. thread_matches A N g b t = Some (m t)"
  shows "block A N g blockDim b sh nT = Some (nT + block_contrib m blockDim)"
proof (cases "0 < blockDim")
  case False
  then show ?thesis by (simp add: block_def block_contrib_def)
next
  case True
  let ?n = "min blockDim warpSize"
  let ?s = "\<lambda>w. zero_sum blockDim sh w + of_nat (warp_total m [0..<blockDim] w)"
  let ?s' = "\<lambda>w. of_nat (warp_total m [0..<blockDim] w) :: 32 word"
  have r: "rows_phase A N g b [0..<blockDim] (zero_sum blockDim sh) = Some ?s"
    using assms by (intro rows_phase_eq) simp
  have "\<forall>x<?n. ?s x = ?s' x"
    by (simp add: zero_sum_eq)
  moreover have "2 * (?n div 2) \<le> ?n" by (rule times_div_less_eq_dividend)
  ultimately have "\<forall>x<?n. reduce_rounds ?n (?n div 2) ?s x = reduce_rounds ?n (?n div 2) ?s' x"
    by (rule reduce_rounds_cong)
  moreover have "0 < ?n" using True by (simp add: warpSize_def)
  ultimately have "blockReduceSum ?n ?s 0 = blockReduceSum ?n ?s' 0"
    by (simp add: blockReduceSum_def)
  with True r show ?thesis
    by (simp add: block_def block_contrib_def)
qed

lemma blocks_eq:
  assumes "\<forall>b\<in>set bs. \<forall>sh nT. block A N g blockDim b sh nT = Some (nT + c b)"
  shows "blocks A N g blockDim shm bs nT = Some (nT + (\<Sum>b\<leftarrow>bs. c b))"
  using assms
proof (induction bs arbitrary: nT)
  case Nil
  then show ?case by simp
next
  case (Cons b bs)
  then show ?case by (simp add: add.assoc)
qed

section \<open>The loops of a thread as sums\<close>

lemma strided_subset: "strided a S n \<subseteq> {a..<n}"
  unfolding strided_def by (rule Collect_restrict)

lemma strided_finite [simp]: "finite (strided a S n)"
  by (rule finite_subset [OF strided_subset]) simp

lemma strided_empty [simp]: "n \<le> a \<Longrightarrow> strided a S n = {}"
  using strided_subset [of a S n] by simp

lemma strided_iff: "i \<in> strided a S n \<longleftrightarrow> a \<le> i \<and> i < n \<and> S dvd (i - a)"
  by (simp add: strided_def mod_eq_0_iff_dvd)

lemma strided_rec:
  assumes "0 < S" "a < n"
  shows "strided a S n = insert a (strided (a + S) S n)" "a \<notin> strided (a + S) S n"
proof -
  have eq: "S dvd (i - (a + S)) \<longleftrightarrow> S dvd (i - a)" for i
  proof -
    have "i - (a + S) = (i - a) - S" by simp
    moreover have "S dvd (i - a) - S \<longleftrightarrow> S dvd (i - a)"
      by (rule dvd_diff_left_iff) (rule dvd_refl)
    ultimately show ?thesis by (simp only:)
  qed
  show "strided a S n = insert a (strided (a + S) S n)"
  proof (rule set_eqI, rule iffI)
    fix i assume i: "i \<in> strided a S n"
    show "i \<in> insert a (strided (a + S) S n)"
    proof (cases "i = a")
      case False
      with i have pos: "0 < i - a" and dvd: "S dvd (i - a)"
        by (simp_all add: strided_iff)
      from dvd pos have "S \<le> i - a" by (rule zdvd_imp_le)
      then have "a + S \<le> i" by simp
      with i dvd show ?thesis by (simp add: strided_iff eq)
    qed simp
  next
    fix i assume "i \<in> insert a (strided (a + S) S n)"
    then consider "i = a" | "i \<in> strided (a + S) S n" by blast
    then show "i \<in> strided a S n"
    proof cases
      case 1
      with assms(2) show ?thesis by (simp add: strided_iff)
    next
      case 2
      then have "a + S \<le> i" "i < n" "S dvd (i - a)" by (simp_all add: strided_iff eq)
      with assms(1) show ?thesis by (simp add: strided_iff)
    qed
  qed
  show "a \<notin> strided (a + S) S n"
    using assms(1) by (simp add: strided_iff)
qed

lemma strided_partition:
  fixes f :: "int \<Rightarrow> nat"
  assumes "0 < S"
  shows "(\<Sum>x\<in>{0..<S}. \<Sum>i\<in>strided (a + x) S n. f i) = (\<Sum>i\<in>{a..<n}. f i)"
proof -
  have "(\<lambda>i. (i - a) mod S) ` {a..<n} \<subseteq> {0..<S}"
    using assms by (auto intro: pos_mod_sign pos_mod_bound)
  then have "(\<Sum>x\<in>{0..<S}. \<Sum>i\<in>{i\<in>{a..<n}. (i - a) mod S = x}. f i) = (\<Sum>i\<in>{a..<n}. f i)"
    by (intro sum.group) simp_all
  moreover have "{i\<in>{a..<n}. (i - a) mod S = x} = strided (a + x) S n" if "x \<in> {0..<S}" for x
  proof (rule set_eqI, rule iffI)
    fix i assume "i \<in> {i\<in>{a..<n}. (i - a) mod S = x}"
    then have i: "a \<le> i" "i < n" "(i - a) mod S = x" by simp_all
    have "0 \<le> i - a" using i(1) by simp
    then have "(i - a) mod S \<le> i - a"
      by (rule zmod_le_nonneg_dividend)
    with i have le: "a + x \<le> i" by simp
    have "x mod S = x" using that by simp
    with i(3) have "(i - a) mod S = x mod S" by simp
    then have "S dvd (i - a) - x" by (simp only: mod_eq_dvd_iff)
    then have "S dvd (i - (a + x))" by (simp only: diff_diff_eq)
    with le i show "i \<in> strided (a + x) S n" by (simp add: strided_iff)
  next
    fix i assume "i \<in> strided (a + x) S n"
    then have i: "a + x \<le> i" "i < n" "S dvd (i - (a + x))" by (simp_all add: strided_iff)
    from i(3) have "S dvd (i - a) - x" by (simp only: diff_diff_eq)
    then have "(i - a) mod S = x mod S" by (simp only: mod_eq_dvd_iff)
    moreover have "x mod S = x" using that by simp
    moreover have "a \<le> i" using i(1) that by simp
    ultimately show "i \<in> {i\<in>{a..<n}. (i - a) mod S = x}" using i(2) by simp
  qed
  ultimately show ?thesis by simp
qed

lemma sum_int_lessThan:
  fixes h :: "int \<Rightarrow> nat"
  shows "(\<Sum>l<n. h (int l)) = (\<Sum>x\<in>{0..<int n}. h x)"
  by (rule sum.reindex_bij_witness [where i = nat and j = int]) auto

lemma rd_Some: "0 \<le> i \<Longrightarrow> i < int (length a) \<Longrightarrow> rd a i = Some (a ! nat i)"
  by (simp add: rd_def)

lemma wrap32_id: "- (2 ^ 31) \<le> x \<Longrightarrow> x < 2 ^ 31 \<Longrightarrow> wrap32 x = x"
proof -
  assume "- (2 ^ 31) \<le> x" "x < 2 ^ 31"
  then have "(x + 2 ^ 31) mod 2 ^ 32 = x + 2 ^ 31"
    by (intro mod_pos_pos_trivial) simp_all
  then show ?thesis
    by (simp add: wrap32_def)
qed

lemma wrap32_pos: "0 \<le> x \<Longrightarrow> x < 2 ^ 31 \<Longrightarrow> wrap32 x = x"
  by (rule wrap32_id) simp_all

lemma j_loop_eq:
  assumes "0 \<le> j" "e \<le> int (length (csrColInd A))" "e + int warpSize \<le> 2 ^ 31"
    and safe: "\<And>i. 0 \<le> i \<Longrightarrow> i < e \<Longrightarrow> row < csrColInd A ! nat i
                 \<Longrightarrow> edge A e row (csrColInd A ! nat i) = Some (ec i)"
    and zero: "\<And>i. 0 \<le> i \<Longrightarrow> i < e \<Longrightarrow> \<not> row < csrColInd A ! nat i \<Longrightarrow> ec i = 0"
  shows "j_loop A row e j = Some (\<Sum>i\<in>strided j (int warpSize) e. ec i)"
  using assms
proof (induction A row e j rule: j_loop.induct)
  case (1 A row e j)
  show ?case
  proof (cases "j < e")
    case False
    then show ?thesis by simp
  next
    case True
    have "j < int (length (csrColInd A))"
      using True "1.prems"(2) by (rule order.strict_trans2)
    with "1.prems"(1) have r: "rd (csrColInd A) j = Some (csrColInd A ! nat j)"
      by (rule rd_Some)
    define col where "col = csrColInd A ! nat j"
    have n: "(if col > row then edge A e row col else Some 0) = Some (ec j)"
    proof (cases "col > row")
      case False
      with "1.prems"(5) [OF "1.prems"(1) True] show ?thesis by (simp add: col_def)
    next
      case gt: True
      with "1.prems"(4) [OF "1.prems"(1) True] show ?thesis by (simp add: col_def)
    qed
    have j': "0 \<le> j + int warpSize" using "1.prems"(1) by simp
    have "j + int warpSize < e + int warpSize" using True by simp
    then have "j + int warpSize < 2 ^ 31"
      using "1.prems"(3) by (rule order.strict_trans2)
    with j' have w: "wrap32 (j + int warpSize) = j + int warpSize"
      by (rule wrap32_pos)
    have IH: "j_loop A row e (j + int warpSize)
          = Some (\<Sum>i\<in>strided (j + int warpSize) (int warpSize) e. ec i)"
      using "1.IH" [OF True r n [unfolded col_def]] j' "1.prems"(2-5) unfolding w by blast
    have ws: "0 < int warpSize" by (simp add: warpSize_def)
    note rec = strided_rec [OF ws True]
    have "j_loop A row e j = Some (ec j + (\<Sum>i\<in>strided (j + int warpSize) (int warpSize) e. ec i))"
      by (subst j_loop.simps) (simp only: True if_True r Option.bind.simps n [unfolded col_def] w IH)
    also have "ec j + (\<Sum>i\<in>strided (j + int warpSize) (int warpSize) e. ec i)
        = (\<Sum>i\<in>strided j (int warpSize) e. ec i)"
      unfolding rec(1) using rec(2) by simp
    finally show ?thesis .
  qed
qed

lemma row_loop_eq:
  assumes "0 < stride" "0 \<le> row" "N + stride \<le> 2 ^ 31"
    and body: "\<And>r. 0 \<le> r \<Longrightarrow> r < N \<Longrightarrow> row_body A lane r = Some (f r)"
  shows "row_loop A N stride lane row = Some (\<Sum>r\<in>strided row stride N. f r)"
  using assms(2)
proof (induction "nat (N - row)" arbitrary: row rule: less_induct)
  case less
  show ?case
  proof (cases "row < N")
    case False
    then show ?thesis
      by (subst row_loop.simps) simp
  next
    case True
    have b: "row_body A lane row = Some (f row)"
      using less.prems True by (rule body)
    have r': "0 \<le> row + stride" using assms(1) less.prems by simp
    have "row + stride < N + stride" using True by simp
    then have "row + stride < 2 ^ 31"
      using assms(3) by (rule order.strict_trans2)
    with r' have w: "wrap32 (row + stride) = row + stride"
      by (rule wrap32_pos)
    have "nat (N - (row + stride)) < nat (N - row)"
      using assms(1) True by simp
    then have IH: "row_loop A N stride lane (row + stride)
        = Some (\<Sum>r\<in>strided (row + stride) stride N. f r)"
      using r' by (rule less.hyps)
    note rec = strided_rec [OF assms(1) True]
    have "row_loop A N stride lane row = Some (f row + (\<Sum>r\<in>strided (row + stride) stride N. f r))"
      by (subst row_loop.simps) (simp only: True if_True b Option.bind.simps w IH)
    also have "f row + (\<Sum>r\<in>strided (row + stride) stride N. f r) = (\<Sum>r\<in>strided row stride N. f r)"
      unfolding rec(1) using rec(2) by simp
    finally show ?thesis .
  qed
qed

text \<open>A row loop whose step leaves the row where it is, below \<open>N\<close>, never returns.\<close>

lemma row_loop_stuck:
  assumes "wrap32 (row + stride) = row" "row < N"
  shows "row_loop A N stride lane row = None"
proof -
  have "\<not> (wrap32 (row + stride) = row \<and> row < N)" if h: "row_loop A N stride lane row = Some y" for y
  proof (rule row_loop.raw_induct
      [where P = "\<lambda>A N stride lane row y. \<not> (wrap32 (row + stride) = row \<and> row < N)", OF _ h])
    fix f :: "csrFormat \<Rightarrow> int \<Rightarrow> int \<Rightarrow> nat \<Rightarrow> int \<Rightarrow> nat option"
    fix A :: csrFormat and N stride row :: int and lane y :: nat
    assume IH: "\<And>A N stride lane row y. f A N stride lane row = Some y
        \<Longrightarrow> \<not> (wrap32 (row + stride) = row \<and> row < N)"
      and b: "(if row < N
               then do {
                 n \<leftarrow> row_body A lane row;
                 m \<leftarrow> f A N stride lane (wrap32 (row + stride));
                 Some (n + m)
               }
               else Some 0) = Some y"
    show "\<not> (wrap32 (row + stride) = row \<and> row < N)"
    proof
      assume s: "wrap32 (row + stride) = row \<and> row < N"
      with b obtain m where "f A N stride lane row = Some m"
        by (auto simp: bind_eq_Some_conv)
      from IH [OF this] s show False by simp
    qed
  qed
  with assms show ?thesis
    by (cases "row_loop A N stride lane row") auto
qed

section \<open>Launches whose index arithmetic wraps\<close>

text \<open>
  With \<open>2 ^ 29\<close> blocks the stride is 0, with \<open>2 ^ 28\<close> blocks it is the least \<^verbatim>\<open>int\<close>, with
  \<open>2 ^ 29 + 1\<close> blocks it is 8, the stride of a grid of one block.
\<close>

lemma stride_wraps:
  "wrap32 (int numberOfWarps * int 536870912) = 0"
  "wrap32 (int numberOfWarps * int 268435456) = - (2 ^ 31)"
  "wrap32 (int numberOfWarps * int 536870913) = 8"
  by (simp_all add: wrap32_def numberOfWarps_def)

text \<open>
  In a grid of \<open>2 ^ 29\<close> blocks thread 0 of block 0 never leaves row 0; in a grid of
  \<open>2 ^ 28\<close> blocks it goes from row 0 to a negative row; in a grid of \<open>2 ^ 29 + 1\<close> blocks
  the first warps of block 0 and of block \<open>2 ^ 29\<close> both start at row 0.
\<close>

lemma grid_2_29_thread: "thread_matches K3 3 536870912 0 0 = None"
  unfolding thread_matches_def Let_def
  by (rule row_loop_stuck) (simp_all add: wrap32_def numberOfWarps_def warpSize_def)

lemma grid_2_28_thread: "thread_matches K3 3 268435456 0 0 = None"
proof -
  have "row_loop K3 3 (- 2147483648) 0 0 = None"
    by code_simp
  then show ?thesis
    by (simp add: thread_matches_def wrap32_def numberOfWarps_def warpSize_def)
qed

lemma grid_2_29_1_thread:
  "thread_matches K3 3 536870913 0 0 = Some 1"
  "thread_matches K3 3 536870913 536870912 0 = Some 1"
proof -
  have "row_loop K3 3 8 0 0 = Some 1"
    by code_simp
  then show "thread_matches K3 3 536870913 0 0 = Some 1"
    "thread_matches K3 3 536870913 536870912 0 = Some 1"
    by (simp_all add: thread_matches_def wrap32_def numberOfWarps_def warpSize_def)
qed

text \<open>So the launch of \<open>2 ^ 29\<close> blocks has no result, whatever the block size.\<close>

lemma grid_2_29_launch:
  assumes "0 < blockDim"
  shows "cuFindTriangles K3 3 536870912 blockDim shm nT = None"
proof -
  have g: "[0..<536870912] = 0 # [Suc 0..<536870912]"
    by (rule upt_conv_Cons) simp
  have b: "[0..<blockDim] = 0 # [Suc 0..<blockDim]"
    using assms by (rule upt_conv_Cons)
  show ?thesis
    unfolding cuFindTriangles_def g blocks.simps block_def b rows_phase.simps grid_2_29_thread
    by simp
qed

section \<open>The launch with blocks of numberOfWarps warps\<close>

lemma edge_count_Some:
  assumes "wf_csr A N" "0 \<le> row" "row < N" "0 \<le> i" "i < csrRowPtr A ! nat (row + 1)"
    and "row < csrColInd A ! nat i"
  shows "edge A (csrRowPtr A ! nat (row + 1)) row (csrColInd A ! nat i) = Some (edge_count A row i)"
proof -
  have "i < int (length (csrColInd A))"
    using assms(5) wf_row(3) [OF assms(1-3)] by (rule order.strict_trans2)
  note c = wf_col_range [OF assms(1,4) this]
  define col where "col = csrColInd A ! nat i"
  have "0 \<le> col" "col < N" "row < col"
    using c assms(6) by (simp_all add: col_def)
  from edge_safe [OF assms(1-3) this(1,2)] this(3) show ?thesis
    unfolding edge_count_def Let_def col_def [symmetric] by auto
qed

lemma row_body_eq:
  assumes "wf_csr A N" "0 \<le> row" "row < N"
    and "lane < warpSize" "nnz A + int warpSize < 2 ^ 31"
  shows "row_body A lane row = Some (lane_row A lane row)"
proof -
  define s where "s = csrRowPtr A ! nat row"
  define e where "e = csrRowPtr A ! nat (row + 1)"
  note w = wf_row [OF assms(1-3), folded s_def e_def]
  have len: "int (length (csrColInd A)) = nnz A"
    using assms(1) by (simp add: wf_csr_def)
  have r1: "rd (csrRowPtr A) row = Some s"
    unfolding s_def using assms by (intro wf_rd_rowptr [OF assms(1)]) simp_all
  have r2: "rd (csrRowPtr A) (row + 1) = Some e"
    unfolding e_def using assms by (intro wf_rd_rowptr [OF assms(1)]) simp_all
  have j: "0 \<le> s + int lane" using w(1) by simp
  have e31: "e + int warpSize \<le> 2 ^ 31"
    using w(3) len assms(5) by simp
  have "s + int lane < e + int warpSize"
    using w(2) assms(4) by simp
  then have "s + int lane < 2 ^ 31"
    using e31 by (rule order.strict_trans2)
  with j have ws: "wrap32 (s + int lane) = s + int lane"
    by (rule wrap32_pos)
  have "j_loop A row e (s + int lane)
      = Some (\<Sum>i\<in>strided (s + int lane) (int warpSize) e. edge_count A row i)"
  proof (rule j_loop_eq [OF j w(3) e31])
    fix i assume "0 \<le> i" "i < e" "row < csrColInd A ! nat i"
    then show "edge A e row (csrColInd A ! nat i) = Some (edge_count A row i)"
      unfolding e_def by (rule edge_count_Some [OF assms(1-3)])
  next
    fix i assume "\<not> row < csrColInd A ! nat i"
    then show "edge_count A row i = 0"
      by (simp add: edge_count_def)
  qed
  then show ?thesis
    unfolding row_body_def lane_row_def s_def [symmetric] e_def [symmetric]
    by (simp only: r1 r2 Option.bind.simps ws)
qed

lemma thread_eq:
  assumes "wf_csr A N" "no_wrap A N g bd" "b < g" "t < bd"
  shows "thread_matches A N g b t = Some (thread_sum A N g b t)"
proof -
  define S where "S = int numberOfWarps * int g"
  define i where "i = int (t div warpSize) + int b * int numberOfWarps"
  have N0: "0 \<le> N"
    using assms(1) by (simp add: wf_csr_def)
  have nw: "N + S < 2 ^ 31" "int ((bd - 1) div warpSize) + int numberOfWarps * (int g - 1) < 2 ^ 31"
    "nnz A + int warpSize < 2 ^ 31"
    using assms(2) by (simp_all add: no_wrap_def S_def)
  have Spos: "0 < S"
    using assms(3) by (simp add: S_def numberOfWarps_def)
  have "S \<le> N + S" using N0 by simp
  then have S31: "S < 2 ^ 31"
    using nw(1) by (rule order.strict_trans1)
  have wS: "wrap32 S = S"
    using Spos S31 by (intro wrap32_pos) simp_all
  have i0: "0 \<le> i" by (simp add: i_def)
  have "t \<le> bd - 1" using assms(4) by simp
  then have "t div warpSize \<le> (bd - 1) div warpSize"
    by (rule div_le_mono)
  moreover have "int b \<le> int g - 1" using assms(3) by simp
  then have "int b * int numberOfWarps \<le> int numberOfWarps * (int g - 1)"
    by (simp add: numberOfWarps_def)
  ultimately have "i \<le> int ((bd - 1) div warpSize) + int numberOfWarps * (int g - 1)"
    unfolding i_def by (intro add_mono) simp_all
  then have "i < 2 ^ 31"
    using nw(2) by (rule order.strict_trans1)
  with i0 have wi: "wrap32 i = i"
    by (rule wrap32_pos)
  have NS: "N + S \<le> 2 ^ 31"
    using nw(1) by simp
  have lane: "t mod warpSize < warpSize"
    by (simp add: warpSize_def)
  have "row_loop A N S (t mod warpSize) i
      = Some (\<Sum>r\<in>strided i S N. lane_row A (t mod warpSize) r)"
    using Spos i0 NS by (rule row_loop_eq) (rule row_body_eq [OF assms(1) _ _ lane nw(3)])
  then show ?thesis
    unfolding thread_matches_def thread_sum_def Let_def S_def [symmetric] i_def [symmetric] wS wi .
qed

lemma lanes_sum: "(\<Sum>lane<warpSize. lane_row A lane row) = row_total A row"
proof -
  have "(\<Sum>lane<warpSize. lane_row A lane row)
      = (\<Sum>x\<in>{0..<int warpSize}. \<Sum>j\<in>strided (csrRowPtr A ! nat row + x) (int warpSize)
            (csrRowPtr A ! nat (row + 1)). edge_count A row j)"
    unfolding lane_row_def by (rule sum_int_lessThan)
  also have "\<dots> = row_total A row"
    unfolding row_total_def by (rule strided_partition) (simp add: warpSize_def)
  finally show ?thesis .
qed

lemma sum_div_mod:
  fixes F :: "nat \<Rightarrow> nat \<Rightarrow> nat"
  assumes "0 < k"
  shows "(\<Sum>t<n * k. F (t div k) (t mod k)) = (\<Sum>w<n. \<Sum>l<k. F w l)"
proof (induction n)
  case 0
  then show ?case by simp
next
  case (Suc n)
  have "{..<Suc n * k} = {..<n * k} \<union> {n * k..<n * k + k}" "{..<n * k} \<inter> {n * k..<n * k + k} = {}"
    by auto
  then have "(\<Sum>t<Suc n * k. F (t div k) (t mod k))
      = (\<Sum>t<n * k. F (t div k) (t mod k)) + (\<Sum>t\<in>{n * k..<n * k + k}. F (t div k) (t mod k))"
    by (simp add: sum.union_disjoint)
  also have "(\<Sum>t\<in>{n * k..<n * k + k}. F (t div k) (t mod k)) = (\<Sum>l<k. F n l)"
  proof (rule sum.reindex_bij_witness [where i = "\<lambda>l. n * k + l" and j = "\<lambda>t. t - n * k"])
    fix a assume a: "a \<in> {n * k..<n * k + k}"
    define r where "r = a - n * k"
    with a have r: "a = r + n * k" "r < k" by auto
    show "n * k + (a - n * k) = a" "a - n * k \<in> {..<k}" using a by auto
    show "F n (a - n * k) = F (a div k) (a mod k)"
      unfolding r_def [symmetric] using r by simp
  qed (use assms in auto)
  finally show ?case using Suc by simp
qed

lemma warps_sum:
  fixes f :: "int \<Rightarrow> nat"
  assumes "0 < g"
  shows "(\<Sum>b<g. \<Sum>w<numberOfWarps.
            \<Sum>r\<in>strided (int w + int b * int numberOfWarps) (int numberOfWarps * int g) N. f r)
         = (\<Sum>r\<in>{0..<N}. f r)"
proof -
  let ?S = "int numberOfWarps * int g"
  let ?G = "\<lambda>x. \<Sum>r\<in>strided x ?S N. f r"
  have nw: "0 < numberOfWarps" by (simp add: numberOfWarps_def)
  have "(\<Sum>b<g. \<Sum>w<numberOfWarps. ?G (int w + int b * int numberOfWarps))
      = (\<Sum>t<g * numberOfWarps. ?G (int (t mod numberOfWarps) + int (t div numberOfWarps) * int numberOfWarps))"
    by (rule sum_div_mod [OF nw, symmetric])
  also have "\<dots> = (\<Sum>t<g * numberOfWarps. ?G (int t))"
  proof (rule sum.cong [OF refl])
    fix t
    have "int (t mod numberOfWarps) + int (t div numberOfWarps) * int numberOfWarps = int t"
      by (simp flip: of_nat_mult of_nat_add)
    then show "?G (int (t mod numberOfWarps) + int (t div numberOfWarps) * int numberOfWarps) = ?G (int t)"
      by simp
  qed
  also have "\<dots> = (\<Sum>x\<in>{0..<int (g * numberOfWarps)}. ?G x)"
    by (rule sum_int_lessThan)
  also have "int (g * numberOfWarps) = ?S" by simp
  also have "(\<Sum>x\<in>{0..<?S}. ?G x) = (\<Sum>x\<in>{0..<?S}. \<Sum>r\<in>strided (0 + x) ?S N. f r)"
    by simp
  also have "\<dots> = (\<Sum>r\<in>{0..<N}. f r)"
    by (rule strided_partition) (use assms nw in simp)
  finally show ?thesis .
qed

lemma grid_sum:
  assumes "0 < g"
  shows "(\<Sum>b<g. \<Sum>t<numberOfWarps * warpSize. thread_sum A N g b t) = total_matches A N"
proof -
  have ws: "0 < warpSize" by (simp add: warpSize_def)
  have "(\<Sum>t<numberOfWarps * warpSize. thread_sum A N g b t)
      = (\<Sum>w<numberOfWarps. \<Sum>r\<in>strided (int w + int b * int numberOfWarps) (int numberOfWarps * int g) N.
           row_total A r)" for b
  proof -
    let ?R = "\<lambda>w. strided (int w + int b * int numberOfWarps) (int numberOfWarps * int g) N"
    have "(\<Sum>t<numberOfWarps * warpSize. thread_sum A N g b t)
        = (\<Sum>w<numberOfWarps. \<Sum>l<warpSize. \<Sum>r\<in>?R w. lane_row A l r)"
      unfolding thread_sum_def by (rule sum_div_mod [OF ws])
    also have "\<dots> = (\<Sum>w<numberOfWarps. \<Sum>r\<in>?R w. \<Sum>l<warpSize. lane_row A l r)"
      by (intro sum.cong refl sum.swap)
    finally show ?thesis by (simp only: lanes_sum)
  qed
  then show ?thesis
    unfolding total_matches_def by (simp only: warps_sum [OF assms])
qed

lemma warp_total_sum: "warp_total m [0..<n] w = (\<Sum>t<n. if t div warpSize = w then m t else 0)"
  unfolding warp_total_def by (simp add: interv_sum_list_conv_sum_set_nat lessThan_atLeast0)

lemma block_contrib_full:
  assumes "warpSize \<le> bd" "bd \<le> warpSize * warpSize"
  shows "block_contrib m bd = of_nat (\<Sum>t<bd. m t)"
proof -
  let ?s = "\<lambda>w. of_nat (warp_total m [0..<bd] w) :: 32 word"
  have bd: "0 < bd" "min bd warpSize = 32" using assms(1) by (simp_all add: warpSize_def)
  have "reduce_rounds 32 (2 ^ 4) ?s 0 = (\<Sum>x<2 ^ Suc 4. ?s x)"
    by (rule reduce_rounds_pow2) simp
  then have "blockReduceSum 32 ?s 0 = (\<Sum>x<32. ?s x)"
    by (simp add: blockReduceSum_def)
  also have "\<dots> = of_nat (\<Sum>x<32. warp_total m [0..<bd] x)"
    by simp
  also have "(\<Sum>x<32. warp_total m [0..<bd] x) = (\<Sum>t<bd. \<Sum>x<32. if t div warpSize = x then m t else 0)"
    unfolding warp_total_sum by (rule sum.swap)
  also have "\<dots> = (\<Sum>t<bd. m t)"
  proof (rule sum.cong [OF refl])
    fix t assume "t \<in> {..<bd}"
    with assms(2) have "t div warpSize < 32"
      by (simp add: warpSize_def)
    then show "(\<Sum>x<32. if t div warpSize = x then m t else 0) = m t"
      by simp
  qed
  finally show ?thesis
    using bd by (simp add: block_contrib_def)
qed

lemma sum_list_upt: "(\<Sum>b\<leftarrow>[0..<g]. c b) = (\<Sum>b<g. c b)" for c :: "nat \<Rightarrow> nat"
  by (simp add: interv_sum_list_conv_sum_set_nat lessThan_atLeast0)

lemma sum_list_of_nat: "(\<Sum>b\<leftarrow>bs. (of_nat (c b) :: 32 word)) = of_nat (\<Sum>b\<leftarrow>bs. c b)"
  by (induction bs) simp_all

lemma kernel_total:
  assumes "wf_csr A N" "0 < g" "no_wrap A N g (numberOfWarps * warpSize)"
  shows "cuFindTriangles A N g (numberOfWarps * warpSize) shm nT = Some (nT + of_nat (total_matches A N))"
proof -
  let ?bd = "numberOfWarps * warpSize"
  let ?c = "\<lambda>b. \<Sum>t<?bd. thread_sum A N g b t"
  have "block A N g ?bd b sh nT' = Some (nT' + of_nat (?c b))" if "b < g" for b sh nT'
  proof -
    have "block A N g ?bd b sh nT' = Some (nT' + block_contrib (thread_sum A N g b) ?bd)"
      by (rule block_eq) (simp add: thread_eq [OF assms(1,3) that])
    moreover have "block_contrib (thread_sum A N g b) ?bd = of_nat (?c b)"
      by (rule block_contrib_full) (simp_all add: warpSize_def numberOfWarps_def)
    ultimately show ?thesis by simp
  qed
  then have "blocks A N g ?bd shm [0..<g] nT = Some (nT + (\<Sum>b\<leftarrow>[0..<g]. of_nat (?c b)))"
    by (intro blocks_eq) simp
  also have "(\<Sum>b\<leftarrow>[0..<g]. (of_nat (?c b) :: 32 word)) = of_nat (\<Sum>b<g. ?c b)"
    by (simp only: sum_list_of_nat sum_list_upt)
  also have "(\<Sum>b<g. ?c b) = total_matches A N"
    by (rule grid_sum [OF assms(2)])
  finally show ?thesis by (simp add: cuFindTriangles_def)
qed

section \<open>Matches and triangles\<close>

lemma triple_count:
  fixes adj :: "int \<Rightarrow> int \<Rightarrow> bool" and N :: int
  assumes sym: "\<And>r c. 0 \<le> r \<Longrightarrow> r < N \<Longrightarrow> adj r c \<Longrightarrow> adj c r"
    and irr: "\<And>r. 0 \<le> r \<Longrightarrow> r < N \<Longrightarrow> \<not> adj r r"
    and rng: "\<And>r c. 0 \<le> r \<Longrightarrow> r < N \<Longrightarrow> adj r c \<Longrightarrow> 0 \<le> c \<and> c < N"
  defines "T \<equiv> {(a, b, c). 0 \<le> a \<and> a < b \<and> b < c \<and> c < N \<and> adj a b \<and> adj b c \<and> adj a c}"
    and "P \<equiv> {(r, c, x). 0 \<le> r \<and> r < N \<and> adj r c \<and> r < c \<and> adj r x \<and> adj c x}"
  shows "card P = 3 * card T"
proof -
  define f1 :: "int \<times> int \<times> int \<Rightarrow> int \<times> int \<times> int" where "f1 = (\<lambda>(a, b, c). (b, c, a))"
  define f2 :: "int \<times> int \<times> int \<Rightarrow> int \<times> int \<times> int" where "f2 = (\<lambda>(a, b, c). (a, c, b))"
  have "T \<subseteq> {0..<N} \<times> {0..<N} \<times> {0..<N}"
    by (auto simp: T_def)
  then have fin: "finite T"
    by (rule finite_subset) simp
  have inj: "inj_on f1 T" "inj_on f2 T"
    by (auto simp: inj_on_def f1_def f2_def)
  have P1: "f1 ` T = {(r, c, x) \<in> P. x < r}"
  proof (rule set_eqI, rule iffI)
    fix p assume "p \<in> f1 ` T"
    then obtain a b c where p: "p = (b, c, a)" and t: "(a, b, c) \<in> T"
      by (auto simp: f1_def)
    from t have o: "0 \<le> a" "a < b" "b < c" "c < N" and a: "adj a b" "adj b c" "adj a c"
      by (simp_all add: T_def)
    from o have "0 \<le> a" "a < N" by simp_all
    from sym [OF this a(1)] sym [OF this a(3)] have "adj b a" "adj c a" .
    with o a show "p \<in> {(r, c, x) \<in> P. x < r}"
      by (simp add: p P_def)
  next
    fix p assume "p \<in> {(r, c, x) \<in> P. x < r}"
    then obtain r c x where p: "p = (r, c, x)" and o: "0 \<le> r" "r < N" "r < c" "x < r"
      and a: "adj r c" "adj r x" "adj c x"
      by (auto simp: P_def)
    from rng [OF o(1,2) a(1)] have c: "0 \<le> c" "c < N" by simp_all
    from rng [OF o(1,2) a(2)] have x: "0 \<le> x" "x < N" by simp_all
    from sym [OF o(1,2) a(2)] sym [OF c a(3)] have "adj x r" "adj x c" .
    with o a c x have "(x, r, c) \<in> T"
      by (simp add: T_def)
    then have "f1 (x, r, c) \<in> f1 ` T" by (rule imageI)
    then show "p \<in> f1 ` T" by (simp add: f1_def p)
  qed
  have P2: "f2 ` T = {(r, c, x) \<in> P. r < x \<and> x < c}"
  proof (rule set_eqI, rule iffI)
    fix p assume "p \<in> f2 ` T"
    then obtain a b c where p: "p = (a, c, b)" and t: "(a, b, c) \<in> T"
      by (auto simp: f2_def)
    from t have o: "0 \<le> a" "a < b" "b < c" "c < N" and a: "adj a b" "adj b c" "adj a c"
      by (simp_all add: T_def)
    from o have "0 \<le> b" "b < N" by simp_all
    from sym [OF this a(2)] have "adj c b" .
    with o a show "p \<in> {(r, c, x) \<in> P. r < x \<and> x < c}"
      by (simp add: p P_def)
  next
    fix p assume "p \<in> {(r, c, x) \<in> P. r < x \<and> x < c}"
    then obtain r c x where p: "p = (r, c, x)" and o: "0 \<le> r" "r < N" "r < c" "r < x" "x < c"
      and a: "adj r c" "adj r x" "adj c x"
      by (auto simp: P_def)
    from rng [OF o(1,2) a(1)] have c: "0 \<le> c" "c < N" by simp_all
    from sym [OF c a(3)] have "adj x c" .
    with o a c have "(r, x, c) \<in> T"
      by (simp add: T_def)
    then have "f2 (r, x, c) \<in> f2 ` T" by (rule imageI)
    then show "p \<in> f2 ` T" by (simp add: f2_def p)
  qed
  have P3: "T = {(r, c, x) \<in> P. c < x}"
  proof (rule set_eqI, rule iffI)
    fix p assume "p \<in> T"
    then obtain a b c where p: "p = (a, b, c)" and o: "0 \<le> a" "a < b" "b < c" "c < N"
      and a: "adj a b" "adj b c" "adj a c"
      by (auto simp: T_def)
    then show "p \<in> {(r, c, x) \<in> P. c < x}"
      by (simp add: P_def)
  next
    fix p assume "p \<in> {(r, c, x) \<in> P. c < x}"
    then obtain r c x where p: "p = (r, c, x)" and o: "0 \<le> r" "r < N" "r < c" "c < x"
      and a: "adj r c" "adj r x" "adj c x"
      by (auto simp: P_def)
    from rng [OF o(1,2) a(2)] have x: "0 \<le> x" "x < N" by simp_all
    with o a show "p \<in> T"
      by (simp add: T_def p)
  qed
  have ne: "x \<noteq> r \<and> x \<noteq> c" if "(r, c, x) \<in> P" for r c x
  proof -
    from that have o: "0 \<le> r" "r < N" and a: "adj r c" "adj r x" "adj c x"
      by (simp_all add: P_def)
    from rng [OF o a(1)] have c: "0 \<le> c" "c < N" by simp_all
    from irr [OF o] irr [OF c] a show ?thesis by auto
  qed
  have split: "P = f1 ` T \<union> f2 ` T \<union> T"
  proof (rule set_eqI, rule iffI)
    fix p assume p: "p \<in> P"
    obtain r c x where pe: "p = (r, c, x)" by (cases p) auto
    with p have "r < c" by (simp add: P_def)
    with ne [of r c x] p pe consider "x < r" | "r < x \<and> x < c" | "c < x"
      by fastforce
    then show "p \<in> f1 ` T \<union> f2 ` T \<union> T"
    proof cases
      case 1
      with p pe have "p \<in> {(r, c, x) \<in> P. x < r}" by simp
      then show ?thesis unfolding P1 [symmetric] by simp
    next
      case 2
      with p pe have "p \<in> {(r, c, x) \<in> P. r < x \<and> x < c}" by simp
      then show ?thesis unfolding P2 [symmetric] by simp
    next
      case 3
      with p pe have "p \<in> {(r, c, x) \<in> P. c < x}" by simp
      then show ?thesis unfolding P3 [symmetric] by simp
    qed
  next
    fix p assume "p \<in> f1 ` T \<union> f2 ` T \<union> T"
    then have "p \<in> {(r, c, x) \<in> P. x < r} \<union> {(r, c, x) \<in> P. r < x \<and> x < c} \<union> {(r, c, x) \<in> P. c < x}"
      using P1 P2 P3 by simp
    then show "p \<in> P" by auto
  qed
  have d12: "f1 ` T \<inter> f2 ` T = {}"
    unfolding P1 P2 by auto
  have d3: "(f1 ` T \<union> f2 ` T) \<inter> T = {}"
  proof -
    have "(f1 ` T \<union> f2 ` T) \<inter> T
        = ({(r, c, x) \<in> P. x < r} \<union> {(r, c, x) \<in> P. r < x \<and> x < c}) \<inter> {(r, c, x) \<in> P. c < x}"
      using P1 P2 P3 by simp
    also have "\<dots> = {}"
      unfolding P_def by auto
    finally show ?thesis .
  qed
  have "card P = card (f1 ` T \<union> f2 ` T) + card T"
    unfolding split using fin d3 by (intro card_Un_disjoint) simp_all
  also have "card (f1 ` T \<union> f2 ` T) = card (f1 ` T) + card (f2 ` T)"
    using fin d12 by (intro card_Un_disjoint) simp_all
  also have "card (f1 ` T) = card T" by (rule card_image [OF inj(1)])
  also have "card (f2 ` T) = card T" by (rule card_image [OF inj(2)])
  finally show ?thesis by simp
qed

lemma edge_count_strict:
  assumes "wf_csr A N" "rows_strict A N" "0 \<le> r" "r < N"
    and "csrRowPtr A ! nat r \<le> j" "j < csrRowPtr A ! nat (r + 1)"
  shows "edge_count A r j =
           (if r < csrColInd A ! nat j
            then card (set (neighbors A r) \<inter> set (neighbors A (csrColInd A ! nat j))) else 0)"
proof (cases "r < csrColInd A ! nat j")
  case False
  then show ?thesis by (simp add: edge_count_def)
next
  case True
  have j0: "0 \<le> j" using wf_row(1) [OF assms(1,3,4)] assms(5) by (rule order_trans)
  have "j < int (length (csrColInd A))"
    using assms(6) wf_row(3) [OF assms(1,3,4)] by (rule order.strict_trans2)
  note c = wf_col_range [OF assms(1) j0 this]
  define col where "col = csrColInd A ! nat j"
  have col: "0 \<le> col" "col < N" "r < col"
    using c True by (simp_all add: col_def)
  from assms(2-4) col have s: "sorted_wrt (<) (neighbors A r)" "sorted_wrt (<) (neighbors A col)"
    by (simp_all add: rows_strict_def)
  then have d: "distinct (neighbors A r)" "distinct (neighbors A col)" and s': "sorted (neighbors A r)"
    by (simp_all add: strict_sorted_iff)
  have "edge A (csrRowPtr A ! nat (r + 1)) r col = Some (edge_count A r j)"
    unfolding col_def by (rule edge_count_Some [OF assms(1,3,4) j0 assms(6) True])
  moreover have "edge A (csrRowPtr A ! nat (r + 1)) r col = Some (naive_intersection A r col)"
    by (rule edge_sorted [OF assms(1,3,4) col(1,2) s' s(2)])
  ultimately have "edge_count A r j = naive_intersection A r col" by simp
  also have "\<dots> = card (set (neighbors A r) \<inter> set (neighbors A col))"
    by (rule naive_distinct [OF d])
  finally show ?thesis using True by (simp add: col_def)
qed

lemma row_total_strict:
  assumes "wf_csr A N" "rows_strict A N" "0 \<le> r" "r < N"
  shows "row_total A r
           = (\<Sum>c\<in>{c \<in> set (neighbors A r). r < c}. card (set (neighbors A r) \<inter> set (neighbors A c)))"
proof -
  let ?g = "\<lambda>c. if r < c then card (set (neighbors A r) \<inter> set (neighbors A c)) else 0"
  from assms have "sorted_wrt (<) (neighbors A r)"
    by (simp add: rows_strict_def)
  then have d: "distinct (neighbors A r)"
    by (simp add: strict_sorted_iff)
  have "row_total A r = (\<Sum>j\<in>{csrRowPtr A ! nat r..<csrRowPtr A ! nat (r + 1)}. ?g (csrColInd A ! nat j))"
    unfolding row_total_def
  proof (rule sum.cong [OF refl])
    fix j assume "j \<in> {csrRowPtr A ! nat r..<csrRowPtr A ! nat (r + 1)}"
    then have "csrRowPtr A ! nat r \<le> j" "j < csrRowPtr A ! nat (r + 1)"
      by (simp_all only: atLeastLessThan_iff)
    then show "edge_count A r j = ?g (csrColInd A ! nat j)"
      by (rule edge_count_strict [OF assms])
  qed
  also have "\<dots> = sum_list (map ?g (neighbors A r))"
    by (rule nbr_sum [OF assms(1,3,4)])
  also have "\<dots> = sum ?g (set (neighbors A r))"
    by (rule sum_list_distinct_conv_sum_set [OF d])
  also have "\<dots> = (\<Sum>c\<in>{c \<in> set (neighbors A r). r < c}. card (set (neighbors A r) \<inter> set (neighbors A c)))"
    by (rule sum.inter_filter [symmetric]) simp
  finally show ?thesis .
qed

lemma total_matches_triangles:
  assumes "wf_csr A N" "rows_strict A N" "symmetric A N" "loop_free A N"
  shows "total_matches A N = 3 * triangles A N"
proof -
  define adj where "adj = (\<lambda>r c. c \<in> set (neighbors A r))"
  let ?P = "{(r, c, x). 0 \<le> r \<and> r < N \<and> adj r c \<and> r < c \<and> adj r x \<and> adj c x}"
  let ?T = "{(a, b, c). 0 \<le> a \<and> a < b \<and> b < c \<and> c < N \<and> adj a b \<and> adj b c \<and> adj a c}"
  have "total_matches A N
      = (\<Sum>r\<in>{0..<N}. \<Sum>c\<in>{c. adj r c \<and> r < c}. card {x. adj r x \<and> adj c x})"
    unfolding total_matches_def
  proof (rule sum.cong [OF refl])
    fix r assume "r \<in> {0..<N}"
    then have r: "0 \<le> r" "r < N" by simp_all
    have "{c \<in> set (neighbors A r). r < c} = {c. adj r c \<and> r < c}"
      "\<And>c. set (neighbors A r) \<inter> set (neighbors A c) = {x. adj r x \<and> adj c x}"
      by (auto simp: adj_def)
    then show "row_total A r = (\<Sum>c\<in>{c. adj r c \<and> r < c}. card {x. adj r x \<and> adj c x})"
      using row_total_strict [OF assms(1,2) r] by simp
  qed
  also have "\<dots> = (\<Sum>r\<in>{0..<N}. card (SIGMA c:{c. adj r c \<and> r < c}. {x. adj r x \<and> adj c x}))"
  proof (rule sum.cong [OF refl])
    fix r
    have f: "finite {c. adj r c \<and> p c}" for p
      by (rule finite_subset [of _ "set (neighbors A r)"]) (auto simp: adj_def)
    show "(\<Sum>c\<in>{c. adj r c \<and> r < c}. card {x. adj r x \<and> adj c x})
        = card (SIGMA c:{c. adj r c \<and> r < c}. {x. adj r x \<and> adj c x})"
      by (rule card_SigmaI [symmetric]) (use f in auto)
  qed
  also have "\<dots> = card (SIGMA r:{0..<N}. SIGMA c:{c. adj r c \<and> r < c}. {x. adj r x \<and> adj c x})"
  proof (rule card_SigmaI [symmetric])
    have f: "finite {c. adj r c \<and> p c}" for p r
      by (rule finite_subset [of _ "set (neighbors A r)"]) (auto simp: adj_def)
    show "\<forall>r\<in>{0..<N}. finite (SIGMA c:{c. adj r c \<and> r < c}. {x. adj r x \<and> adj c x})"
      by (intro ballI finite_SigmaI f)
  qed simp
  also have "(SIGMA r:{0..<N}. SIGMA c:{c. adj r c \<and> r < c}. {x. adj r x \<and> adj c x}) = ?P"
    by auto
  also have "card ?P = 3 * card ?T"
  proof (rule triple_count)
    fix r c assume "0 \<le> r" "r < N" "adj r c"
    with assms(3) show "adj c r"
      by (auto simp: symmetric_def adj_def)
  next
    fix r assume "0 \<le> r" "r < N"
    with assms(4) show "\<not> adj r r"
      by (auto simp: loop_free_def adj_def)
  next
    fix r c assume "adj r c"
    then show "0 \<le> c \<and> c < N"
      using nbr_range [OF assms(1), of c r] by (simp add: adj_def)
  qed
  also have "?T = triangle_set A N"
    by (auto simp: triangle_set_def adj_def)
  finally show ?thesis by (simp add: triangles_def)
qed

section \<open>The launch as a whole\<close>

lemma kernel_eq:
  assumes "wf_csr A N" "no_wrap A N g bd"
  shows "cuFindTriangles A N g bd shm nT
           = Some (nT + (\<Sum>b\<leftarrow>[0..<g]. block_contrib (thread_sum A N g b) bd))"
  unfolding cuFindTriangles_def
proof (rule blocks_eq, intro ballI allI)
  fix b sh nT' assume "b \<in> set [0..<g]"
  then have b: "b < g" by simp
  show "block A N g bd b sh nT' = Some (nT' + block_contrib (thread_sum A N g b) bd)"
    by (rule block_eq) (simp add: thread_eq [OF assms b])
qed

lemma sum_list_zero: "(\<Sum>t\<leftarrow>ts. 0::nat) = 0"
  by (induction ts) simp_all






text \<open>
  C8. On a well-formed structure, with one launch configuration in which no index
  computation wraps, zeroing and counting twice gives the same accumulator value both
  times; counting again without zeroing gives the sum of the two counts (in 32 bit
  arithmetic).
\<close>

theorem rezero_idempotent:
  assumes "wf_csr A N" "no_wrap A N gridDim blockDim"
  shows "\<exists>c. cuFindTriangles A N gridDim blockDim shm1 (cuZeroVariable nT) = Some c \<and>
             cuFindTriangles A N gridDim blockDim shm2 (cuZeroVariable c) = Some c \<and>
             cuFindTriangles A N gridDim blockDim shm2 c = Some (c + c)"
  by (simp add: kernel_eq [OF assms] cuZeroVariable_def)

theorem rezero_idempotent_witness:
  "wf_csr K3 3 \<and> no_wrap K3 3 2 256 \<and>
   (\<exists>c. cuFindTriangles K3 3 2 256 stale (cuZeroVariable 5) = Some c \<and>
        cuFindTriangles K3 3 2 256 stale (cuZeroVariable c) = Some c \<and>
        cuFindTriangles K3 3 2 256 stale c = Some (c + c)) \<and>
   cuFindTriangles K3 3 2 256 stale (cuZeroVariable 5) = Some 3 \<and>
   cuFindTriangles K3 3 2 256 stale 3 = Some 6"
proof -
  have h: "wf_csr K3 3" "no_wrap K3 3 2 256"
    by code_simp+
  have t: "total_matches K3 3 = 3" "numberOfWarps * warpSize = 256"
    by code_simp+
  have n: "cuFindTriangles K3 3 2 256 stale (cuZeroVariable 5) = Some 3"
    "cuFindTriangles K3 3 2 256 stale 3 = Some 6"
    using kernel_total [of K3 3 2 stale] h unfolding t by (simp_all add: cuZeroVariable_def)
  show ?thesis
    using h rezero_idempotent [OF h, of stale 5 stale] n by (intro conjI) assumption+
qed

lemma blockReduceSum_warp: "blockReduceSum 32 s 0 = (\<Sum>x<32. s x)"
proof -
  have "reduce_rounds 32 (2 ^ 4) s 0 = (\<Sum>x<2 ^ Suc 4. s x)"
    by (rule reduce_rounds_pow2) simp
  then show ?thesis
    by (simp add: blockReduceSum_def)
qed

text \<open>
  C3. In a block of a grid in which no index computation wraps, whose first warp is full
  and that has at most \<open>numberOfWarps\<close> warps, the row loops return, and the halving
  reduction then leaves in \<^verbatim>\<open>sum[0]\<close> the total of the \<open>numberOfWarps\<close> slots; the block adds
  that value to the accumulator.
\<close>

theorem block_reduction_total:
  assumes "wf_csr A N" "no_wrap A N gridDim blockDim" "blockIdx < gridDim"
    and "warpSize \<le> blockDim" "blockDim \<le> numberOfWarps * warpSize"
  shows "\<exists>s. rows_phase A N gridDim blockIdx [0..<blockDim] (zero_sum blockDim sum0) = Some s \<and>
             blockReduceSum (min blockDim warpSize) s 0 = (\<Sum>w<numberOfWarps. s w) \<and>
             block A N gridDim blockDim blockIdx sum0 nT = Some (nT + (\<Sum>w<numberOfWarps. s w))"
proof -
  let ?m = "thread_sum A N gridDim blockIdx"
  define s where "s = (\<lambda>w. zero_sum blockDim sum0 w + of_nat (warp_total ?m [0..<blockDim] w))"
  have r: "rows_phase A N gridDim blockIdx [0..<blockDim] (zero_sum blockDim sum0) = Some s"
    unfolding s_def by (rule rows_phase_eq) (simp add: thread_eq [OF assms(1-3)])
  have bd: "0 < blockDim" "min blockDim warpSize = 32" "blockDim \<le> 256"
    using assms(4,5) by (simp_all add: warpSize_def numberOfWarps_def)
  have z: "s x = 0" if "x \<in> {..<32} - {..<8}" for x
  proof -
    from that have x: "8 \<le> x" "x < 32" by simp_all
    have "t div warpSize \<noteq> x" if "t < blockDim" for t
    proof -
      from that bd(3) have "t < 8 * 32" by simp
      then have "t div 32 < 8" by (simp only: div_less_iff_less_mult [OF zero_less_numeral] mult.commute)
      with x show ?thesis by (simp add: warpSize_def)
    qed
    then have "warp_total ?m [0..<blockDim] x = 0"
      by (simp add: warp_total_sum)
    with x bd show ?thesis
      by (simp add: s_def zero_sum_eq)
  qed
  have "blockReduceSum (min blockDim warpSize) s 0 = (\<Sum>x<32. s x)"
    unfolding bd(2) by (rule blockReduceSum_warp)
  also have "\<dots> = (\<Sum>x<8. s x)"
    by (rule sum.mono_neutral_right) (use z in auto)
  finally have red: "blockReduceSum (min blockDim warpSize) s 0 = (\<Sum>w<numberOfWarps. s w)"
    by (simp add: numberOfWarps_def)
  have "block A N gridDim blockDim blockIdx sum0 nT = Some (nT + (\<Sum>w<numberOfWarps. s w))"
    unfolding block_def r using bd(1) red by simp
  with r red show ?thesis by blast
qed

theorem block_reduction_total_witness:
  "wf_csr K3 3 \<and> no_wrap K3 3 1 256 \<and> (0::nat) < 1 \<and> warpSize \<le> 256 \<and>
   256 \<le> numberOfWarps * warpSize \<and>
   (\<exists>s. rows_phase K3 3 1 0 [0..<256] (zero_sum 256 (stale 0)) = Some s \<and>
        blockReduceSum (min 256 warpSize) s 0 = (\<Sum>w<numberOfWarps. s w) \<and>
        block K3 3 1 256 0 (stale 0) 0 = Some (0 + (\<Sum>w<numberOfWarps. s w))) \<and>
   block K3 3 1 256 0 (stale 0) 0 = Some 3"
proof -
  have h: "wf_csr K3 3" "no_wrap K3 3 1 256" "(0::nat) < 1" "warpSize \<le> 256"
    "256 \<le> numberOfWarps * warpSize"
    by code_simp+
  have t: "total_matches K3 3 = 3" "numberOfWarps * warpSize = 256"
    by code_simp+
  have "cuFindTriangles K3 3 1 256 stale 0 = Some 3"
    using kernel_total [of K3 3 1 stale 0] h(1,2) unfolding t by simp
  then have n: "block K3 3 1 256 0 (stale 0) 0 = Some 3"
    by (auto simp: cuFindTriangles_def bind_eq_Some_conv)
  show ?thesis
    using h block_reduction_total [OF h, of "stale 0" 0] n by (intro conjI) assumption+
qed

lemma fold_warpReduceSum:
  assumes "\<forall>gr\<in>set gs. gr \<noteq> [] \<and> (\<forall>t\<in>set gr. t div warpSize = wid)"
  shows "fold warpReduceSum gs s = s(wid := s wid + of_nat (length (concat gs)))"
  using assms
proof (induction gs arbitrary: s)
  case Nil
  then show ?case by simp
next
  case (Cons gr gs)
  from Cons.prems obtain t ts where gr: "gr = t # ts" and t: "t div warpSize = wid"
    by (cases gr) auto
  have "warpReduceSum gr s = s(wid := s wid + of_nat (length gr))"
    by (simp add: warpReduceSum_def gr t Let_def)
  moreover have "fold warpReduceSum gs (warpReduceSum gr s)
      = (warpReduceSum gr s)(wid := (warpReduceSum gr s) wid + of_nat (length (concat gs)))"
    using Cons.prems by (intro Cons.IH) simp
  ultimately show ?case
    by (simp add: fun_eq_iff)
qed

lemma length_count_sum:
  assumes "set xs \<subseteq> set ts" "distinct ts"
  shows "length xs = (\<Sum>t\<leftarrow>ts. count_list xs t)"
proof -
  have "(\<Sum>t\<leftarrow>ts. count_list xs t) = sum (count_list xs) (set ts)"
    by (rule sum_list_distinct_conv_sum_set [OF assms(2)])
  also have "\<dots> = length xs"
    by (rule sum_count_set [OF assms(1)]) simp
  finally show ?thesis by simp
qed

text \<open>
  C6. The threads \<open>ts\<close> of one warp \<open>wid\<close> find \<open>m t\<close> matches each. In whatever way the
  match events coalesce into groups \<open>gs\<close> (every group is not empty and made of threads
  of \<open>ts\<close>, and thread \<open>t\<close> is in \<open>m t\<close> groups), running \<^verbatim>\<open>warpReduceSum\<close> once per group adds
  to \<^verbatim>\<open>sum[wid]\<close> exactly the number of match events and changes no other slot; this is
  the state the row loops of the model leave; and the groups, one atomic addition each,
  are no more than the match events.
\<close>

theorem warp_aggregation:
  assumes "\<forall>t\<in>set ts. t div warpSize = wid" "distinct ts"
    and "\<forall>t\<in>set ts. thread_matches A N gridDim blockIdx t = Some (m t)"
    and "\<forall>gr\<in>set gs. gr \<noteq> [] \<and> set gr \<subseteq> set ts"
    and "\<forall>t\<in>set ts. count_list (concat gs) t = m t"
  shows "fold warpReduceSum gs s = s(wid := s wid + of_nat (\<Sum>t\<leftarrow>ts. m t)) \<and>
         rows_phase A N gridDim blockIdx ts s = Some (fold warpReduceSum gs s) \<and>
         length gs \<le> (\<Sum>t\<leftarrow>ts. m t)"
proof -
  have sub: "set (concat gs) \<subseteq> set ts"
    using assms(4) by auto
  have "length (concat gs) = (\<Sum>t\<leftarrow>ts. count_list (concat gs) t)"
    by (rule length_count_sum [OF sub assms(2)])
  also have "\<dots> = (\<Sum>t\<leftarrow>ts. m t)"
    using assms(5) by (intro arg_cong [where f = sum_list] map_cong refl) simp
  finally have len: "length (concat gs) = (\<Sum>t\<leftarrow>ts. m t)" .
  have "\<forall>gr\<in>set gs. gr \<noteq> [] \<and> (\<forall>t\<in>set gr. t div warpSize = wid)"
    using assms(1,4) by blast
  then have f: "fold warpReduceSum gs s = s(wid := s wid + of_nat (\<Sum>t\<leftarrow>ts. m t))"
    unfolding len [symmetric] by (rule fold_warpReduceSum)
  have wt: "warp_total m ts w = (if w = wid then (\<Sum>t\<leftarrow>ts. m t) else 0)" for w
  proof (cases "w = wid")
    case True
    have e: "map (\<lambda>t. if t div warpSize = w then m t else 0) ts = map m ts"
      using assms(1) True by (intro map_cong refl) simp
    show ?thesis
      unfolding warp_total_def e using True by simp
  next
    case False
    have e: "map (\<lambda>t. if t div warpSize = w then m t else 0) ts = map (\<lambda>t. 0) ts"
      using assms(1) False by (intro map_cong refl) simp
    show ?thesis
      unfolding warp_total_def e using False by (simp add: sum_list_zero)
  qed
  have "rows_phase A N gridDim blockIdx ts s = Some (\<lambda>w. s w + of_nat (warp_total m ts w))"
    by (rule rows_phase_eq [OF assms(3)])
  also have "(\<lambda>w. s w + of_nat (warp_total m ts w)) = s(wid := s wid + of_nat (\<Sum>t\<leftarrow>ts. m t))"
    by (simp add: fun_eq_iff wt)
  finally have r: "rows_phase A N gridDim blockIdx ts s = Some (fold warpReduceSum gs s)"
    unfolding f .
  have "length gs \<le> length (concat gs)"
    using assms(4)
  proof (induction gs)
    case Nil
    then show ?case by simp
  next
    case (Cons gr gs)
    then have "1 \<le> length gr" "length gs \<le> length (concat gs)"
      by (simp_all add: Suc_le_eq)
    then show ?case by simp
  qed
  with f r len show ?thesis by simp
qed

theorem warp_aggregation_witness:
  "0 div warpSize = 0 \<and> 1 div warpSize = 0 \<and> distinct [0, 1 :: nat] \<and>
   thread_matches K3 3 1 0 0 = Some 1 \<and> thread_matches K3 3 1 0 1 = Some 1 \<and>
   count_list (concat [[0, 1 :: nat]]) 0 = 1 \<and> count_list (concat [[0, 1 :: nat]]) 1 = 1 \<and>
   fold warpReduceSum [[0, 1]] (stale 0) = (stale 0)(0 := stale 0 0 + of_nat (\<Sum>t\<leftarrow>[0, 1 :: nat]. 1)) \<and>
   rows_phase K3 3 1 0 [0, 1] (stale 0) = Some (fold warpReduceSum [[0, 1]] (stale 0)) \<and>
   length [[0, 1 :: nat]] \<le> (\<Sum>t\<leftarrow>[0, 1 :: nat]. 1)"
proof -
  have e: "0 div warpSize = 0" "1 div warpSize = 0" "distinct [0, 1 :: nat]"
    "thread_matches K3 3 1 0 0 = Some 1" "thread_matches K3 3 1 0 1 = Some 1"
    "count_list (concat [[0, 1 :: nat]]) 0 = 1" "count_list (concat [[0, 1 :: nat]]) 1 = 1"
    by code_simp+
  have h: "\<forall>t\<in>set [0, 1]. t div warpSize = 0" "distinct [0, 1 :: nat]"
    "\<forall>t\<in>set [0, 1]. thread_matches K3 3 1 0 t = Some ((\<lambda>_. 1) t)"
    "\<forall>gr\<in>set [[0, 1]]. gr \<noteq> [] \<and> set gr \<subseteq> set [0, 1 :: nat]"
    "\<forall>t\<in>set [0, 1]. count_list (concat [[0, 1 :: nat]]) t = (\<lambda>_. 1) t"
    using e by simp_all
  note t = warp_aggregation [OF h, of "stale 0"]
  show ?thesis
    using e t by (intro conjI) simp_all
qed

text \<open>
  C4 fails on the code: with a full first warp, line 124 writes \<^verbatim>\<open>sum[lane]\<close> for every
  lane up to 31, and the reduction of that warp reads \<^verbatim>\<open>temp[lane + i]\<close> up to index 31.
  Slot 8, outside the \<open>numberOfWarps\<close> declared slots, holds 7 before the block clears it;
  and a 1 in slot 31 alone arrives in \<^verbatim>\<open>sum[0]\<close>.
\<close>

theorem sum_slot_out_of_range:
  "stale 0 8 = 7 \<and> zero_sum 256 (stale 0) 8 = 0 \<and> \<not> 8 < numberOfWarps \<and>
   blockReduceSum (min 256 warpSize) probe 0 = 1 \<and> \<not> 31 < numberOfWarps"
proof -
  have "(\<Sum>x<32. probe x) = 1"
    by (simp add: probe_def)
  then have "blockReduceSum 32 probe 0 = 1"
    by (simp only: blockReduceSum_warp)
  then show ?thesis
    by (simp add: zero_sum_eq stale_def numberOfWarps_def warpSize_def)
qed


lemma block_size: "numberOfWarps * warpSize = 256"
  by (simp add: numberOfWarps_def warpSize_def)

text \<open>
  C2, as stated, fails: the three-node complete graph leaves 3 in the accumulator, one
  match for each of its three edges \<open>(row, col)\<close>, \<open>col > row\<close>.
\<close>

theorem K3_counterexample:
  "cuFindTriangles K3 3 1 256 stale (cuZeroVariable 0) = Some 3 \<and>
   cuFindTriangles K3 3 1 256 stale (cuZeroVariable 0) \<noteq> Some 1"
proof -
  have "wf_csr K3 3" "total_matches K3 3 = 3" "no_wrap K3 3 1 (numberOfWarps * warpSize)"
    by code_simp+
  with kernel_total [of K3 3 1 stale "cuZeroVariable 0"] show ?thesis
    by (simp add: block_size cuZeroVariable_def)
qed

text \<open>
  C2, amended. For every grid of at least one block of \<open>numberOfWarps\<close> warps whose stride
  \<open>numberOfWarps * gridDim\<close> is below \<open>2 ^ 31\<close>, the three-node complete graph leaves
  exactly 3 in the accumulator.
\<close>

theorem K3_count:
  assumes "0 < gridDim" "int numberOfWarps * int gridDim < 2 ^ 31"
  shows "cuFindTriangles K3 3 gridDim (numberOfWarps * warpSize) shm (cuZeroVariable nT) = Some 3"
proof -
  have "wf_csr K3 3" "total_matches K3 3 = 3"
    by code_simp+
  moreover have "no_wrap K3 3 gridDim (numberOfWarps * warpSize)"
  proof -
    from assms(2) have "8 * int gridDim < 2147483648"
      by (simp add: numberOfWarps_def)
    then have "3 + 8 * int gridDim < 2147483648"
      by presburger
    then show ?thesis
      by (simp add: no_wrap_def K3_def numberOfWarps_def warpSize_def)
  qed
  ultimately show ?thesis
    using kernel_total [of K3 3 gridDim shm "cuZeroVariable nT"] assms(1)
    by (simp add: cuZeroVariable_def)
qed

theorem K3_count_witness:
  "(0::nat) < 4 \<and> int numberOfWarps * int 4 < 2 ^ 31 \<and>
   cuFindTriangles K3 3 4 (numberOfWarps * warpSize) stale (cuZeroVariable 9) = Some 3"
proof -
  have h: "(0::nat) < 4" "int numberOfWarps * int 4 < 2 ^ 31"
    by (simp_all add: numberOfWarps_def)
  show ?thesis
    using h K3_count [OF h, of stale 9] by (intro conjI) assumption+
qed

text \<open>
  C5, as stated, fails: a grid of one block of one warp visits only the rows 0, 8, 16, ...
  and leaves 2 in the accumulator for the three-node complete graph, where a block of
  eight warps leaves 3.
\<close>

theorem block_size_counterexample:
  "wf_csr K3 3 \<and> rows_strict K3 3 \<and> symmetric K3 3 \<and>
   cuFindTriangles K3 3 1 256 stale (cuZeroVariable 0) = Some 3 \<and>
   cuFindTriangles K3 3 1 32 stale (cuZeroVariable 0) = Some 2"
proof -
  have h: "wf_csr K3 3" "rows_strict K3 3" "symmetric K3 3"
    by code_simp+
  have t: "total_matches K3 3 = 3" "(\<Sum>t<32. thread_sum K3 3 1 0 t) = 2"
    by code_simp+
  have nw: "no_wrap K3 3 1 (numberOfWarps * warpSize)" "no_wrap K3 3 1 32"
    by code_simp+
  have a: "cuFindTriangles K3 3 1 256 stale (cuZeroVariable 0) = Some 3"
    using kernel_total [of K3 3 1 stale "cuZeroVariable 0"] h(1) t(1) nw(1)
    by (simp add: block_size cuZeroVariable_def)
  have "block_contrib (thread_sum K3 3 1 0) 32 = of_nat (\<Sum>t<32. thread_sum K3 3 1 0 t)"
    by (rule block_contrib_full) (simp_all add: warpSize_def)
  also have "\<dots> = 2"
    unfolding t(2) by simp
  finally have b: "cuFindTriangles K3 3 1 32 stale (cuZeroVariable 0) = Some 2"
    using kernel_eq [OF h(1) nw(2), of stale "cuZeroVariable 0"] by (simp add: cuZeroVariable_def)
  from h a b show ?thesis by simp
qed

text \<open>
  C5, amended. For every well-formed structure and any two grids of at least one block
  each, with blocks of \<open>numberOfWarps\<close> warps, in which no index computation wraps, the
  two launches leave the same value in the accumulator: the value before plus the matches
  of all rows.
\<close>

theorem grid_size_invariance:
  assumes "wf_csr A N" "0 < g1" "0 < g2"
    and "no_wrap A N g1 (numberOfWarps * warpSize)" "no_wrap A N g2 (numberOfWarps * warpSize)"
  shows "cuFindTriangles A N g1 (numberOfWarps * warpSize) shm1 nT
           = cuFindTriangles A N g2 (numberOfWarps * warpSize) shm2 nT \<and>
         cuFindTriangles A N g1 (numberOfWarps * warpSize) shm1 nT
           = Some (nT + of_nat (total_matches A N))"
  by (simp add: kernel_total [OF assms(1,2,4)] kernel_total [OF assms(1,3,5)])

theorem grid_size_invariance_witness:
  "wf_csr K4 4 \<and> (0::nat) < 1 \<and> (0::nat) < 7 \<and>
   no_wrap K4 4 1 (numberOfWarps * warpSize) \<and> no_wrap K4 4 7 (numberOfWarps * warpSize) \<and>
   cuFindTriangles K4 4 1 (numberOfWarps * warpSize) stale 0
     = cuFindTriangles K4 4 7 (numberOfWarps * warpSize) stale 0 \<and>
   cuFindTriangles K4 4 1 (numberOfWarps * warpSize) stale 0 = Some (0 + of_nat (total_matches K4 4)) \<and>
   total_matches K4 4 = 12"
proof -
  have h: "wf_csr K4 4" "(0::nat) < 1" "(0::nat) < 7"
    "no_wrap K4 4 1 (numberOfWarps * warpSize)" "no_wrap K4 4 7 (numberOfWarps * warpSize)"
    by code_simp+
  have n: "total_matches K4 4 = 12"
    by code_simp
  note t = grid_size_invariance [OF h, of stale 0 stale]
  show ?thesis
    using h t [THEN conjunct1] t [THEN conjunct2] n by (intro conjI) assumption+
qed

text \<open>
  C1, as stated, fails: the complete graph on four nodes has 4 triangles, and the kernel
  leaves 12 in the accumulator.
\<close>

theorem triangle_count_counterexample:
  "wf_csr K4 4 \<and> rows_strict K4 4 \<and> symmetric K4 4 \<and> triangles K4 4 = 4 \<and>
   cuFindTriangles K4 4 1 256 stale (cuZeroVariable 0) = Some 12 \<and>
   cuFindTriangles K4 4 1 256 stale (cuZeroVariable 0) \<noteq> Some (of_nat (triangles K4 4))"
proof -
  have h: "wf_csr K4 4" "rows_strict K4 4" "symmetric K4 4" "triangles K4 4 = 4"
    "total_matches K4 4 = 12" "no_wrap K4 4 1 (numberOfWarps * warpSize)"
    by code_simp+
  with kernel_total [of K4 4 1 stale "cuZeroVariable 0"] show ?thesis
    by (simp add: block_size cuZeroVariable_def)
qed

text \<open>
  C1, amended. For a well-formed structure that is symmetric, has strictly ascending
  rows and no diagonal entry, and for every grid of at least one block of \<open>numberOfWarps\<close>
  warps in which no index computation wraps, zeroing and counting leaves in the
  accumulator three times the number of triangles of the graph (as a 32 bit value).
\<close>

theorem accumulator_three_times_triangles:
  assumes "wf_csr A N" "rows_strict A N" "symmetric A N" "loop_free A N" "0 < gridDim"
    and "no_wrap A N gridDim (numberOfWarps * warpSize)"
  shows "cuFindTriangles A N gridDim (numberOfWarps * warpSize) shm (cuZeroVariable nT)
           = Some (of_nat (3 * triangles A N))"
  by (simp add: kernel_total [OF assms(1,5,6)] total_matches_triangles [OF assms(1-4)]
      cuZeroVariable_def)

theorem accumulator_three_times_triangles_witness:
  "wf_csr K4 4 \<and> rows_strict K4 4 \<and> symmetric K4 4 \<and> loop_free K4 4 \<and> (0::nat) < 2 \<and>
   no_wrap K4 4 2 (numberOfWarps * warpSize) \<and>
   cuFindTriangles K4 4 2 (numberOfWarps * warpSize) stale (cuZeroVariable 5)
     = Some (of_nat (3 * triangles K4 4)) \<and>
   triangles K4 4 = 4"
proof -
  have h: "wf_csr K4 4" "rows_strict K4 4" "symmetric K4 4" "loop_free K4 4" "(0::nat) < 2"
    "no_wrap K4 4 2 (numberOfWarps * warpSize)"
    by code_simp+
  have n: "triangles K4 4 = 4"
    by code_simp
  show ?thesis
    using h accumulator_three_times_triangles [OF h, of stale 5] n by (intro conjI) assumption+
qed

end
